theory Spec2Isabelle
  imports Main "HOL-Library.Sublist" "HOL-Library.AList" "HOL-Library.Char_ord"
    "HOL-Library.List_Lexorder"
begin

section \<open>Python strings and lists\<close>

text \<open>
  The program is \<^verbatim>\<open>sys/check_missing/check_missing.py\<close>. Its values are Python strings,
  lists of strings, one dict and one set. A string is a \<^typ>\<open>string\<close>; a \<^typ>\<open>char\<close> stands for
  one code point below 256, which covers the text of a C header and of a Rust binding
  file. Every exception the script can raise is a value of \<open>py_error\<close>, and a function that
  may raise returns \<open>py_error + 'a\<close> with \<open>Inl\<close> for the exception.
\<close>

datatype py_error = IndexError | KeyError | AttributeError

text \<open>\<^verbatim>\<open>xs[i]\<close> for a non-negative index: IndexError out of range.\<close>

definition getitem :: "'a list \<Rightarrow> nat \<Rightarrow> py_error + 'a" where
  "getitem xs i = (if i < length xs then Inr (xs ! i) else Inl IndexError)"

text \<open>
  \<^verbatim>\<open>ch.isspace()\<close> on the code points below 256: tab, line feed, vertical tab, form feed,
  carriage return, the four separators 0x1C..0x1F, space, NEL and the no-break space.
\<close>

definition is_space :: "char \<Rightarrow> bool" where
  "is_space c = (of_char c \<in> {9, 10, 11, 12, 13, 28, 29, 30, 31, 32, 133, 160 :: nat})"

text \<open>\<^verbatim>\<open>s.strip()\<close>\<close>

definition strip :: "string \<Rightarrow> string" where
  "strip s = rev (dropWhile is_space (rev (dropWhile is_space s)))"

text \<open>\<^verbatim>\<open>s.startswith(p)\<close> is \<^const>\<open>prefix\<close>, \<^verbatim>\<open>s.endswith(p)\<close> is \<^const>\<open>suffix\<close>.\<close>

text \<open>\<^verbatim>\<open>sub in s\<close>\<close>

fun contains :: "string \<Rightarrow> string \<Rightarrow> bool" where
  "contains sub [] = (sub = [])"
| "contains sub (c # cs) = (prefix sub (c # cs) \<or> contains sub cs)"

text \<open>
  \<^verbatim>\<open>s.split(sep)\<close> with an explicit separator: the leftmost occurrences of \<open>sep\<close>, none
  overlapping another, cut the string; empty pieces are kept and the result is never
  empty. Python raises ValueError for an empty separator; every call of the script
  passes a non-empty literal, and the model finds no occurrence of the empty one.
\<close>

function split :: "string \<Rightarrow> string \<Rightarrow> string list" where
  "split sep [] = [[]]"
| "split sep (c # cs) =
     (if sep \<noteq> [] \<and> prefix sep (c # cs)
      then [] # split sep (drop (length sep) (c # cs))
      else (case split sep cs of [] \<Rightarrow> [[c]] | w # ws \<Rightarrow> (c # w) # ws))"
  by pat_completeness auto
termination
  by (relation "measure (\<lambda>(sep, s). length s)") (auto simp: neq_Nil_conv)

text \<open>\<^verbatim>\<open>s.replace(old, new)\<close> for a non-empty \<open>old\<close>.\<close>

function replace :: "string \<Rightarrow> string \<Rightarrow> string \<Rightarrow> string" where
  "replace old new [] = []"
| "replace old new (c # cs) =
     (if old \<noteq> [] \<and> prefix old (c # cs)
      then new @ replace old new (drop (length old) (c # cs))
      else c # replace old new cs)"
  by pat_completeness auto
termination
  by (relation "measure (\<lambda>(old, new, s). length s)") (auto simp: neq_Nil_conv)

text \<open>\<^verbatim>\<open>sep.join(xs)\<close>\<close>

fun join :: "string \<Rightarrow> string list \<Rightarrow> string" where
  "join sep [] = []"
| "join sep [x] = x"
| "join sep (x # y # ys) = x @ sep @ join sep (y # ys)"

section \<open>The deny-list\<close>

definition TO_IGNORE :: "string list" where
  "TO_IGNORE =
    [''initGEOS_r'', ''finishGEOS_r'', ''GEOSGeomFromWKT'', ''GEOSGeomFromWKT_r'',
     ''GEOSGeomToWKT'', ''GEOSGeomToWKT_r'', ''GEOSSingleSidedBuffer'',
     ''GEOSSingleSidedBuffer_r'', ''GEOSUnionCascaded'', ''GEOSUnionCascaded_r'']"

section \<open>get_c_args\<close>

text \<open>
  The two \<^verbatim>\<open>while\<close> loops on \<^verbatim>\<open>ty_name\<close>. The first turns each trailing \<^verbatim>\<open>[]\<close> into a
  \<^verbatim>\<open> *const\<close> appended to \<^verbatim>\<open>params\<close>; the second moves each leading \<^verbatim>\<open>*\<close> to \<^verbatim>\<open>params\<close>.
  Both return the pair \<open>(params, ty_name)\<close> they end with.
\<close>

lemma length_strip_le: "length (strip s) \<le> length s"
proof -
  have "length (strip s) \<le> length (dropWhile is_space s)"
    using length_dropWhile_le [of is_space "rev (dropWhile is_space s)"]
    by (simp add: strip_def)
  also have "\<dots> \<le> length s" by (rule length_dropWhile_le)
  finally show ?thesis .
qed

function strip_arrays :: "string \<Rightarrow> string \<Rightarrow> string \<times> string" where
  "strip_arrays params ty_name =
     (if suffix ''[]'' ty_name
      then strip_arrays (params @ '' *const'') (strip (take (length ty_name - 2) ty_name))
      else (params, ty_name))"
  by pat_completeness auto
termination
proof (relation "measure (\<lambda>(params, ty_name). length ty_name)", simp, clarsimp)
  fix ty_name :: string
  assume "suffix ''[]'' ty_name"
  then have "2 \<le> length ty_name" by (auto simp: suffix_def)
  moreover have "length (strip (take (length ty_name - 2) ty_name)) \<le> length ty_name - 2"
    using length_strip_le [of "take (length ty_name - 2) ty_name"] by simp
  ultimately show "length (strip (take (length ty_name - 2) ty_name)) < length ty_name"
    by linarith
qed

declare strip_arrays.simps [simp del]

fun move_stars :: "string \<Rightarrow> string \<Rightarrow> string \<times> string" where
  "move_stars params [] = (params, [])"
| "move_stars params (c # cs) =
     (if c = CHR ''*'' then move_stars (params @ ''*'') cs else (params, c # cs))"

text \<open>
  One pass of the \<^verbatim>\<open>for\<close> body on a stripped, non-empty \<^verbatim>\<open>part\<close>. After line 25 \<^verbatim>\<open>params\<close> is
  a string, so \<^verbatim>\<open>params.pop()\<close> on line 30 raises AttributeError.
\<close>

definition get_c_arg :: "string \<Rightarrow> py_error + string" where
  "get_c_arg part =
     (let params = split '' '' part;
          ty_name = last params;
          params = join '' '' (butlast params);
          (params, ty_name) = strip_arrays params ty_name
      in if length ty_name = 0 then Inl AttributeError
         else (let (params, ty_name) = move_stars params ty_name
               in Inr (strip (replace '' * const'' '' *const'' params))))"

fun get_c_args_parts :: "string list \<Rightarrow> string list \<Rightarrow> py_error + string list" where
  "get_c_args_parts [] args = Inr args"
| "get_c_args_parts (part # parts) args =
     (let part = strip part
      in if length part = 0 then get_c_args_parts parts args
         else (case get_c_arg part of
                 Inl e \<Rightarrow> Inl e
               | Inr a \<Rightarrow> get_c_args_parts parts (args @ [a])))"

text \<open>\<^verbatim>\<open>get_c_args(text, args)\<close> returns the list \<^verbatim>\<open>args\<close> it has appended to.\<close>

definition get_c_args :: "string \<Rightarrow> string list \<Rightarrow> py_error + string list" where
  "get_c_args text args = get_c_args_parts (split '','' text) args"

section \<open>get_rust_args and get_rust_ret_type\<close>

definition get_rust_arg :: "string \<Rightarrow> string" where
  "get_rust_arg part =
     join '' '' (filter (\<lambda>x. length x > 0) (map strip (tl (split '':'' part))))"

fun get_rust_args_parts :: "string list \<Rightarrow> string list \<Rightarrow> string list" where
  "get_rust_args_parts [] args = args"
| "get_rust_args_parts (part # parts) args =
     (let part = strip part
      in if length part = 0 then get_rust_args_parts parts args
         else get_rust_args_parts parts (args @ [get_rust_arg part]))"

definition get_rust_args :: "string \<Rightarrow> string list \<Rightarrow> string list" where
  "get_rust_args text args = get_rust_args_parts (split '','' text) args"

definition get_rust_ret_type :: "string \<Rightarrow> py_error + string" where
  "get_rust_ret_type text =
     (if \<not> contains '') -> '' text then Inr []
      else (case getitem (split '') -> '' text) 1 of
              Inl e \<Rightarrow> Inl e
            | Inr r \<Rightarrow> Inr (hd (split '';'' r))))"

section \<open>convert_c_to_rust\<close>

definition inline_conv :: "string \<Rightarrow> string option" where
  "inline_conv =
     [''int'' \<mapsto> ''c_int'', ''char'' \<mapsto> ''c_char'', ''void'' \<mapsto> ''c_void'',
      ''double'' \<mapsto> ''c_double'', ''float'' \<mapsto> ''c_float'']"

definition unsigned_inline_conv :: "string \<Rightarrow> string option" where
  "unsigned_inline_conv =
     [''int'' \<mapsto> ''c_uint'', ''char'' \<mapsto> ''c_uchar'', ''c_int'' \<mapsto> ''c_uint'',
      ''c_char'' \<mapsto> ''c_uchar'']"

text \<open>\<^verbatim>\<open>inline_conv.get(x, x)\<close>\<close>

definition inline_conv_get :: "string \<Rightarrow> string" where
  "inline_conv_get x = (case inline_conv x of None \<Rightarrow> x | Some v \<Rightarrow> v)"

text \<open>
  The first \<^verbatim>\<open>while\<close> (lines 107 to 113): a \<^verbatim>\<open>const\<close> token is dropped, and sets \<^verbatim>\<open>is_const\<close>
  when it is the first token.
\<close>

fun drop_const :: "nat \<Rightarrow> string list \<Rightarrow> bool \<Rightarrow> string list \<Rightarrow> bool \<times> string list" where
  "drop_const pos [] is_const complete_type = (is_const, complete_type)"
| "drop_const pos (p # ps) is_const complete_type =
     (if p = ''const''
      then drop_const (Suc pos) ps (if pos = 0 then True else is_const) complete_type
      else drop_const (Suc pos) ps is_const (complete_type @ [p]))"

text \<open>
  The second \<^verbatim>\<open>while\<close> (lines 114 to 116): each trailing \<^verbatim>\<open>*\<close> of the last token becomes a
  pointer marker in front. \<^verbatim>\<open>complete_type[len(complete_type) - 1]\<close> on the empty list
  is \<^verbatim>\<open>complete_type[-1]\<close>, an IndexError.
\<close>

function peel_pointers :: "bool \<Rightarrow> string list \<Rightarrow> py_error + string list" where
  "peel_pointers is_const complete_type =
     (if complete_type = [] then Inl IndexError
      else if suffix ''*'' (last complete_type)
      then peel_pointers is_const
             ((if is_const then ''*const'' else ''*mut'')
               # butlast complete_type @ [strip (butlast (last complete_type))])
      else Inr complete_type)"
  by pat_completeness auto
termination
proof (relation "measure (\<lambda>(is_const, ct). length (last ct))", simp, clarsimp)
  fix ct :: "string list"
  assume "suffix ''*'' (last ct)"
  then have "1 \<le> length (last ct)" by (auto simp: suffix_def)
  moreover have "length (strip (butlast (last ct))) \<le> length (last ct) - 1"
    using length_strip_le [of "butlast (last ct)"] by simp
  ultimately show "length (strip (butlast (last ct))) < length (last ct)"
    by linarith
qed

declare peel_pointers.simps [simp del]

text \<open>
  The third \<^verbatim>\<open>while\<close> (lines 117 to 121) peels the \<^verbatim>\<open>*const\<close> markers the extractor wrote
  for array parameters. Nothing bounds its iterations, so it is a partial function:
  \<open>None\<close> is a run that never leaves the loop.
\<close>

partial_function (option) peel_const :: "string list \<Rightarrow> (py_error + string list) option" where
  "peel_const complete_type =
     (if complete_type = [] then Some (Inl IndexError)
      else if suffix ''*const'' (last complete_type)
      then (let l = strip (take (length (last complete_type) - 6) (last complete_type))
            in peel_const
                 (''*const'' # (if length l = 0 then butlast complete_type
                                else butlast complete_type @ [l])))
      else Some (Inr complete_type))"

declare peel_const.simps [code]

text \<open>
  The substitution pass (lines 122 to 129). The tokens before \<^verbatim>\<open>pos\<close> are final, so the pass
  is a recursion on the tokens from \<^verbatim>\<open>pos\<close> on. After \<^verbatim>\<open>pop(pos)\<close> the next token is read:
  IndexError when there is none, KeyError when the table lacks it.
\<close>

fun substitute :: "string list \<Rightarrow> py_error + string list" where
  "substitute [] = Inr []"
| "substitute (t # ts) =
     (if t = ''unsigned''
      then (case ts of
              [] \<Rightarrow> Inl IndexError
            | u # us \<Rightarrow>
                (case unsigned_inline_conv u of
                   None \<Rightarrow> Inl KeyError
                 | Some v \<Rightarrow> (case substitute us of Inl e \<Rightarrow> Inl e | Inr r \<Rightarrow> Inr (v # r))))
      else (case substitute ts of
              Inl e \<Rightarrow> Inl e
            | Inr r \<Rightarrow> Inr (inline_conv_get t # r)))"

definition convert_c_to_rust :: "string \<Rightarrow> (py_error + string) option" where
  "convert_c_to_rust c_type =
     (let parts = split '' '' (strip c_type);
          (is_const, complete_type) = drop_const 0 parts False []
      in case peel_pointers is_const complete_type of
           Inl e \<Rightarrow> Some (Inl e)
         | Inr complete_type \<Rightarrow>
             (case peel_const complete_type of
                None \<Rightarrow> None
              | Some (Inl e) \<Rightarrow> Some (Inl e)
              | Some (Inr complete_type) \<Rightarrow>
                  (case substitute complete_type of
                     Inl e \<Rightarrow> Some (Inl e)
                   | Inr complete_type \<Rightarrow>
                       Some (Inr (join '' ''
                         (filter (\<lambda>x. length x > 0) (map strip complete_type)))))))"

text \<open>A token with no \<^verbatim>\<open>*\<close> in it and no character that \<^verbatim>\<open>strip\<close> removes.\<close>

definition plain :: "string \<Rightarrow> bool" where
  "plain t = (CHR ''*'' \<notin> set t \<and> (\<forall>ch\<in>set t. \<not> is_space ch))"

section \<open>compare_rust_and_c_funcs\<close>

text \<open>The list comprehension on line 135 translates the C parameters from left to right.\<close>

fun convert_all :: "string list \<Rightarrow> (py_error + string list) option" where
  "convert_all [] = Some (Inr [])"
| "convert_all (x # xs) =
     (case convert_c_to_rust x of
        None \<Rightarrow> None
      | Some (Inl e) \<Rightarrow> Some (Inl e)
      | Some (Inr y) \<Rightarrow>
          (case convert_all xs of
             None \<Rightarrow> None
           | Some (Inl e) \<Rightarrow> Some (Inl e)
           | Some (Inr ys) \<Rightarrow> Some (Inr (y # ys))))"

definition ret_differ :: "string \<Rightarrow> string \<Rightarrow> string \<Rightarrow> string" where
  "ret_differ name c_func_ret ret_type =
     ''['' @ name @ '']: ret types differ: `'' @ c_func_ret @ ''` != `'' @ ret_type @ ''`''"

definition params_differ :: "string \<Rightarrow> string \<Rightarrow> string \<Rightarrow> string" where
  "params_differ name c_func_args rust_args =
     ''['' @ name @ '']: params differ:'' @ [CHR 0x0A] @ ''=> `'' @ c_func_args @ ''`''
       @ [CHR 0x0A] @ ''-> `'' @ rust_args @ ''`''"

text \<open>
  The comparator returns \<^verbatim>\<open>errors == 0\<close> together with what it printed, one string for
  each call of \<^verbatim>\<open>print\<close>.
\<close>

definition compare_rust_and_c_funcs ::
    "string \<Rightarrow> string list \<times> string \<Rightarrow> string list \<Rightarrow> string
      \<Rightarrow> (py_error + bool \<times> string list) option" where
  "compare_rust_and_c_funcs name c_func rust_args ret_type =
     (case convert_all (fst c_func) of
        None \<Rightarrow> None
      | Some (Inl e) \<Rightarrow> Some (Inl e)
      | Some (Inr converted) \<Rightarrow>
          (case convert_c_to_rust (snd c_func) of
             None \<Rightarrow> None
           | Some (Inl e) \<Rightarrow> Some (Inl e)
           | Some (Inr c_func_ret) \<Rightarrow>
               (let c_func_args = join '','' converted;
                    c_func_ret = (if c_func_ret = ''c_void'' then [] else c_func_ret);
                    ret_out = (if c_func_ret \<noteq> ret_type
                               then [ret_differ name c_func_ret ret_type] else []);
                    args_out = (if c_func_args \<noteq> join '','' rust_args
                                then [params_differ name c_func_args (join '','' rust_args)]
                                else []);
                    errors = length ret_out + length args_out
                in Some (Inr (errors = 0, ret_out @ args_out)))))"

section \<open>get_c_functions\<close>

text \<open>
  The dict \<^verbatim>\<open>functions\<close> is an association list in insertion order: \<^const>\<open>AList.update\<close>
  overwrites the value of a key that is present and appends a new key, as the assignment
  \<^verbatim>\<open>functions[func_name] = (args, ret_type)\<close> does.
\<close>

type_synonym c_table = "(string \<times> string list \<times> string) list"

text \<open>
  The inner \<^verbatim>\<open>while\<close> (lines 71 to 75) reads the continuation lines of a declaration. It
  returns the \<^verbatim>\<open>pos\<close> it stops at (the line that ends in \<^verbatim>\<open>);\<close>, or \<^verbatim>\<open>len(content)\<close>) and the
  arguments.
\<close>

function c_continuation :: "string list \<Rightarrow> nat \<Rightarrow> string list \<Rightarrow> py_error + nat \<times> string list" where
  "c_continuation content pos args =
     (if pos < length content
      then (case get_c_args (hd (split '');'' (strip (content ! pos)))) args of
              Inl e \<Rightarrow> Inl e
            | Inr args' \<Rightarrow>
                if suffix '');'' (content ! pos) then Inr (pos, args')
                else c_continuation content (Suc pos) args')
      else Inr (pos, args))"
  by pat_completeness auto
termination
  by (relation "measure (\<lambda>(content, pos, args). length content - pos)") auto

declare c_continuation.simps [simp del]

text \<open>
  Lines 60 to 76 on a line that holds the export marker: the position reached, the
  stripped name, the arguments and the return type.
\<close>

definition c_declaration ::
    "string list \<Rightarrow> nat \<Rightarrow> py_error + nat \<times> string \<times> string list \<times> string" where
  "c_declaration content pos =
     (let line = content ! pos;
          parts = split '' GEOS_DLL '' line
      in case getitem (split ''extern '' (hd parts)) 1 of
           Inl e \<Rightarrow> Inl e
         | Inr r \<Rightarrow>
             (case getitem parts 1 of
                Inl e \<Rightarrow> Inl e
              | Inr p \<Rightarrow>
                  (let name_and_args = split ''('' p;
                       (ret_type, func_name) = move_stars (strip r) (hd name_and_args)
                   in case getitem name_and_args 1 of
                        Inl e \<Rightarrow> Inl e
                      | Inr a \<Rightarrow>
                          (case get_c_args a [] of
                             Inl e \<Rightarrow> Inl e
                           | Inr args \<Rightarrow>
                               (case (if \<not> suffix '');'' a
                                      then c_continuation content (Suc pos) args
                                      else Inr (pos, args)) of
                                  Inl e \<Rightarrow> Inl e
                                | Inr (pos', args') \<Rightarrow>
                                    Inr (pos', strip func_name, args', ret_type))))))"

lemma c_continuation_pos: "c_continuation content pos args = Inr (pos', args') \<Longrightarrow> pos \<le> pos'"
proof (induction content pos args rule: c_continuation.induct)
  case (1 content pos args)
  from "1.prems" have
    "(if pos < length content
      then (case get_c_args (hd (split '');'' (strip (content ! pos)))) args of
              Inl e \<Rightarrow> Inl e
            | Inr args'' \<Rightarrow>
                if suffix '');'' (content ! pos) then Inr (pos, args'')
                else c_continuation content (Suc pos) args'')
      else Inr (pos, args)) = Inr (pos', args')"
    by (subst (asm) c_continuation.simps)
  with "1.IH" show ?case
    by (fastforce split: if_splits sum.splits)
qed

lemma c_declaration_pos:
  assumes "c_declaration content pos = Inr (pos', r)"
  shows "pos \<le> pos'"
  using assms
  by (auto simp: c_declaration_def Let_def split: sum.splits prod.splits if_splits
      dest: c_continuation_pos)

text \<open>One pass of the outer \<^verbatim>\<open>while\<close> body (lines 56 to 79): the next \<^verbatim>\<open>pos\<close> and the dict.\<close>

definition c_step :: "string list \<Rightarrow> nat \<Rightarrow> c_table \<Rightarrow> py_error + nat \<times> c_table" where
  "c_step content pos functions =
     (if \<not> contains '' GEOS_DLL '' (content ! pos) then Inr (Suc pos, functions)
      else (case c_declaration content pos of
              Inl e \<Rightarrow> Inl e
            | Inr (pos', func_name, args, ret_type) \<Rightarrow>
                Inr (Suc pos',
                     if length func_name > 0 \<and> func_name \<notin> set TO_IGNORE
                     then AList.update func_name (args, ret_type) functions
                     else functions)))"

lemma c_step_pos:
  assumes "c_step content pos fs = Inr (pos', fs')"
  shows "pos < pos'"
  using assms
  by (auto simp: c_step_def split: if_splits sum.splits prod.splits dest: c_declaration_pos)

function get_c_functions_loop :: "string list \<Rightarrow> nat \<Rightarrow> c_table \<Rightarrow> py_error + c_table" where
  "get_c_functions_loop content pos functions =
     (if pos < length content
      then (case c_step content pos functions of
              Inl e \<Rightarrow> Inl e
            | Inr (pos', functions') \<Rightarrow> get_c_functions_loop content pos' functions')
      else Inr functions)"
  by pat_completeness auto
termination
  by (relation "measure (\<lambda>(content, pos, functions). length content - pos)")
    (auto dest: c_step_pos)

declare get_c_functions_loop.simps [simp del]

text \<open>\<^verbatim>\<open>get_c_functions\<close>, from the lines \<^verbatim>\<open>f.read().splitlines()\<close> of the header.\<close>

definition get_c_functions :: "string list \<Rightarrow> py_error + c_table" where
  "get_c_functions content = get_c_functions_loop content 0 []"

text \<open>
  The position and the dict with which the outer \<^verbatim>\<open>while\<close> comes to its test for the
  \<open>n\<close>-th time after \<open>(pos, functions)\<close>: the moments at which a line of the header is
  scanned.
\<close>

fun c_scan_after :: "string list \<Rightarrow> nat \<Rightarrow> nat \<times> c_table \<Rightarrow> py_error + nat \<times> c_table" where
  "c_scan_after content 0 s = Inr s"
| "c_scan_after content (Suc n) (pos, functions) =
     (if pos < length content
      then (case c_step content pos functions of
              Inl e \<Rightarrow> Inl e
            | Inr s' \<Rightarrow> c_scan_after content n s')
      else Inr (pos, functions))"

section \<open>get_rust_functions\<close>

text \<open>
  What the scan of the binding changes: the dict \<^verbatim>\<open>c_func\<close>, which it shares with the caller
  and deletes from; the set \<^verbatim>\<open>functions\<close>, which the caller receives as \<^verbatim>\<open>r_func\<close>; the
  counter \<^verbatim>\<open>errors\<close>; and the strings printed so far. The set is a list without
  duplicates: its only reader sorts it, so the order Python iterates it in is not seen.
\<close>

record scan =
  c_func :: c_table
  r_func :: "string list"
  errors :: nat
  printed :: "string list"

text \<open>The inner \<^verbatim>\<open>while\<close> (lines 169 to 173).\<close>

function rust_continuation :: "string list \<Rightarrow> nat \<Rightarrow> string list \<Rightarrow> nat \<times> string list" where
  "rust_continuation content pos args =
     (if pos < length content
      then (let args' = get_rust_args (hd (split '')'' (strip (content ! pos)))) args
            in if suffix '');'' (content ! pos) \<or> contains '') -> '' (content ! pos)
               then (pos, args')
               else rust_continuation content (Suc pos) args')
      else (pos, args))"
  by pat_completeness auto
termination
  by (relation "measure (\<lambda>(content, pos, args). length content - pos)") auto

declare rust_continuation.simps [simp del]

text \<open>
  Lines 165 to 174 for a name that is a key of \<^verbatim>\<open>c_func\<close>: the position reached, the
  arguments and the return type. \<^verbatim>\<open>content[pos]\<close> on line 174 is an IndexError when the
  inner loop has run off the end of the file.
\<close>

definition rust_signature ::
    "string list \<Rightarrow> nat \<Rightarrow> string list \<Rightarrow> py_error + nat \<times> string list \<times> string" where
  "rust_signature content pos parts =
     (let line = content ! pos
      in case getitem parts 1 of
           Inl e \<Rightarrow> Inl e
         | Inr p \<Rightarrow>
             (let args = get_rust_args (strip (hd (split '')'' p))) [];
                  (pos', args') =
                    (if \<not> suffix '');'' line \<and> \<not> contains '') -> '' line
                     then rust_continuation content (Suc pos) args
                     else (pos, args))
              in case getitem content pos' of
                   Inl e \<Rightarrow> Inl e
                 | Inr l \<Rightarrow>
                     (case get_rust_ret_type l of
                        Inl e \<Rightarrow> Inl e
                      | Inr ret_type \<Rightarrow> Inr (pos', args', ret_type))))"

text \<open>
  One pass of the outer \<^verbatim>\<open>while\<close> body (lines 158 to 180) at a \<^verbatim>\<open>pos\<close> inside the file:
  the next \<^verbatim>\<open>pos\<close> and the state.
\<close>

definition rust_step :: "string list \<Rightarrow> nat \<Rightarrow> scan \<Rightarrow> (py_error + nat \<times> scan) option" where
  "rust_step content pos st =
     (let line = content ! pos
      in if \<not> contains '' fn '' line then Some (Inr (Suc pos, st))
         else (case getitem (split '' fn '' line) 1 of
                 Inl e \<Rightarrow> Some (Inl e)
               | Inr p \<Rightarrow>
                   (let parts = split ''('' p;
                        func_name = strip (hd parts)
                    in if func_name \<in> set (map fst (c_func st))
                       then (case rust_signature content pos parts of
                               Inl e \<Rightarrow> Some (Inl e)
                             | Inr (pos', args, ret_type) \<Rightarrow>
                                 (case map_of (c_func st) func_name of
                                    None \<Rightarrow> Some (Inl KeyError)
                                  | Some sig \<Rightarrow>
                                      (case compare_rust_and_c_funcs func_name sig args ret_type of
                                         None \<Rightarrow> None
                                       | Some (Inl e) \<Rightarrow> Some (Inl e)
                                       | Some (Inr (ok, out)) \<Rightarrow>
                                           Some (Inr (Suc pos',
                                             st\<lparr>c_func := AList.delete func_name (c_func st),
                                                errors := (if \<not> ok then errors st + 1
                                                           else errors st),
                                                printed := printed st @ out\<rparr>)))))
                       else Some (Inr (Suc pos,
                              if length func_name > 0
                              then st\<lparr>r_func := List.insert func_name (r_func st)\<rparr>
                              else st)))))"

text \<open>
  The name that lines 162 and 163 read from a line that holds the marker \<^verbatim>\<open> fn \<close>:
  \<^verbatim>\<open>line.split(' fn ')[1].split('(')[0].strip()\<close>.
\<close>

definition declared_name :: "string \<Rightarrow> string" where
  "declared_name line = strip (hd (split ''('' (split '' fn '' line ! 1)))"

lemma rust_continuation_pos: "rust_continuation content pos args = (pos', args') \<Longrightarrow> pos \<le> pos'"
proof (induction content pos args rule: rust_continuation.induct)
  case (1 content pos args)
  from "1.prems" have
    "(if pos < length content
      then (let args'' = get_rust_args (hd (split '')'' (strip (content ! pos)))) args
            in if suffix '');'' (content ! pos) \<or> contains '') -> '' (content ! pos)
               then (pos, args'')
               else rust_continuation content (Suc pos) args'')
      else (pos, args)) = (pos', args')"
    by (subst (asm) rust_continuation.simps)
  with "1.IH" show ?case
    by (fastforce simp: Let_def split: if_splits)
qed

lemma rust_signature_pos:
  assumes "rust_signature content pos parts = Inr (pos', r)"
  shows "pos \<le> pos'"
  using assms
  by (auto simp: rust_signature_def Let_def split: sum.splits prod.splits if_splits
      dest: rust_continuation_pos)

lemma rust_step_pos:
  assumes "rust_step content pos st = Some (Inr (pos', st'))"
  shows "pos < pos'"
  using assms
  by (auto simp: rust_step_def Let_def
      split: sum.splits prod.splits if_splits option.splits
      dest: rust_signature_pos)

function get_rust_functions_loop ::
    "string list \<Rightarrow> nat \<Rightarrow> scan \<Rightarrow> (py_error + scan) option" where
  "get_rust_functions_loop content pos st =
     (if pos < length content
      then (case rust_step content pos st of
              None \<Rightarrow> None
            | Some (Inl e) \<Rightarrow> Some (Inl e)
            | Some (Inr (pos', st')) \<Rightarrow> get_rust_functions_loop content pos' st')
      else Some (Inr st))"
  by pat_completeness auto
termination
  by (relation "measure (\<lambda>(content, pos, st). length content - pos)")
    (auto dest: rust_step_pos)

declare get_rust_functions_loop.simps [simp del]

text \<open>The state the scan starts in (lines 149 and 151).\<close>

definition scan_start :: "c_table \<Rightarrow> scan" where
  "scan_start c = \<lparr>c_func = c, r_func = [], errors = 0, printed = []\<rparr>"

text \<open>
  \<^verbatim>\<open>get_rust_functions\<close>, from the lines of the binding and the dict. The pair it returns
  is \<open>(r_func st, errors st \<noteq> 0)\<close>; \<open>c_func st\<close> is the caller's dict after the deletions and
  \<open>printed st\<close> is what the comparator wrote.
\<close>

definition get_rust_functions :: "string list \<Rightarrow> c_table \<Rightarrow> (py_error + scan) option" where
  "get_rust_functions content c = get_rust_functions_loop content 0 (scan_start c)"

text \<open>
  The position and the state with which the outer \<^verbatim>\<open>while\<close> comes to its test for the
  \<open>n\<close>-th time after \<open>(pos, st)\<close>: the moments at which a line is scanned.
\<close>

fun scan_after :: "string list \<Rightarrow> nat \<Rightarrow> nat \<times> scan \<Rightarrow> (py_error + nat \<times> scan) option" where
  "scan_after content 0 s = Some (Inr s)"
| "scan_after content (Suc n) (pos, st) =
     (if pos < length content
      then (case rust_step content pos st of
              None \<Rightarrow> None
            | Some (Inl e) \<Rightarrow> Some (Inl e)
            | Some (Inr s') \<Rightarrow> scan_after content n s')
      else Some (Inr (pos, st)))"

section \<open>The report and the exit status\<close>

definition errored :: "scan \<Rightarrow> bool" where
  "errored st = (errors st \<noteq> 0)"

definition not_bound :: "scan \<Rightarrow> string list" where
  "not_bound st = sort (map fst (c_func st))"

definition extra :: "scan \<Rightarrow> string list" where
  "extra st = sort (r_func st)"

definition report :: "scan \<Rightarrow> string list" where
  "report st =
     printed st @ [''==> Not bound functions:''] @ not_bound st @ [[]]
       @ [''==> Extra (???) rust functions:''] @ extra st"

text \<open>Line 204: \<^verbatim>\<open>sys.exit(1)\<close>, or the end of the script and status 0.\<close>

definition exit_status :: "scan \<Rightarrow> nat" where
  "exit_status st =
     (if errored st \<or> length (c_func st) > 0 \<or> length (r_func st) > 0 then 1 else 0)"

text \<open>
  The script, from the lines of the header and of the binding: what it prints and the
  status it exits with; \<open>Some (Inl e)\<close> when it stops on an exception, \<open>None\<close> when it never
  stops.
\<close>

definition check_missing :: "string list \<Rightarrow> string list \<Rightarrow> (py_error + string list \<times> nat) option" where
  "check_missing header binding =
     (case get_c_functions header of
        Inl e \<Rightarrow> Some (Inl e)
      | Inr c \<Rightarrow>
          (case get_rust_functions binding c of
             None \<Rightarrow> None
           | Some (Inl e) \<Rightarrow> Some (Inl e)
           | Some (Inr st) \<Rightarrow> Some (Inr (report st, exit_status st))))"

section \<open>One pass of the scan of the binding\<close>

lemma split_nonempty: "split sep s \<noteq> []"
  by (induction sep s rule: split.induct) (auto split: list.splits)

lemma contains_split: "sep \<noteq> [] \<Longrightarrow> contains sep s \<Longrightarrow> 1 < length (split sep s)"
proof (induction sep s rule: split.induct)
  case (1 sep)
  then show ?case by simp
next
  case (2 sep c cs)
  show ?case
  proof (cases "prefix sep (c # cs)")
    case True
    with "2.prems" split_nonempty [of sep "drop (length sep) (c # cs)"] show ?thesis
      by (simp add: Suc_lessI)
  next
    case False
    with "2.prems" have "contains sep cs" by simp
    with "2.IH"(2) False "2.prems" have "1 < length (split sep cs)" by simp
    with False show ?thesis by (auto split: list.splits)
  qed
qed

lemma rust_step_unmatched:
  assumes "contains '' fn '' (content ! pos)"
    and "declared_name (content ! pos) \<notin> fst ` set (c_func st)"
  shows "rust_step content pos st =
           Some (Inr (Suc pos,
             if length (declared_name (content ! pos)) > 0
             then st\<lparr>r_func := List.insert (declared_name (content ! pos)) (r_func st)\<rparr>
             else st))"
proof -
  from contains_split [OF _ assms(1)]
  have "getitem (split '' fn '' (content ! pos)) 1 = Inr (split '' fn '' (content ! pos) ! 1)"
    by (simp add: getitem_def)
  with assms show ?thesis
    by (simp add: rust_step_def Let_def declared_name_def)
qed

lemma rust_step_matched:
  assumes "contains '' fn '' (content ! pos)"
    and "declared_name (content ! pos) \<in> fst ` set (c_func st)"
    and "rust_step content pos st = Some (Inr (pos', st'))"
  shows "c_func st' = AList.delete (declared_name (content ! pos)) (c_func st)
         \<and> r_func st' = r_func st"
proof -
  from contains_split [OF _ assms(1)]
  have "getitem (split '' fn '' (content ! pos)) 1 = Inr (split '' fn '' (content ! pos) ! 1)"
    by (simp add: getitem_def)
  with assms show ?thesis
    by (auto simp: rust_step_def Let_def declared_name_def
        split: sum.splits option.splits prod.splits)
qed

lemma rust_step_skip:
  assumes "\<not> contains '' fn '' (content ! pos)"
  shows "rust_step content pos st = Some (Inr (Suc pos, st))"
  using assms by (simp add: rust_step_def)

lemma rust_step_inv:
  assumes "rust_step content pos st = Some (Inr (pos', st'))"
  shows "fst ` set (c_func st') \<subseteq> fst ` set (c_func st) \<and> set (r_func st) \<subseteq> set (r_func st')"
proof (cases "contains '' fn '' (content ! pos)")
  case False
  with assms show ?thesis by (simp add: rust_step_skip)
next
  case True
  show ?thesis
  proof (cases "declared_name (content ! pos) \<in> fst ` set (c_func st)")
    case True
    from rust_step_matched [OF \<open>contains '' fn '' (content ! pos)\<close> True assms]
    show ?thesis by (simp add: dom_delete_subset)
  next
    case False
    from assms rust_step_unmatched [OF True False, of ] show ?thesis
      by (auto split: if_splits)
  qed
qed

lemma loop_step:
  assumes "pos < length content" and "rust_step content pos st = Some (Inr (pos', st'))"
  shows "get_rust_functions_loop content pos st = get_rust_functions_loop content pos' st'"
  using assms by (subst get_rust_functions_loop.simps) simp

lemma loop_end:
  assumes "\<not> pos < length content"
  shows "get_rust_functions_loop content pos st = Some (Inr st)"
  using assms by (subst get_rust_functions_loop.simps) simp

lemma loop_returns_step:
  assumes "get_rust_functions_loop content pos st = Some (Inr st')" and "pos < length content"
  shows "\<exists>pos1 st1. rust_step content pos st = Some (Inr (pos1, st1))
    \<and> get_rust_functions_loop content pos1 st1 = Some (Inr st')"
proof -
  from assms have
    "(case rust_step content pos st of
        None \<Rightarrow> None
      | Some (Inl e) \<Rightarrow> Some (Inl e)
      | Some (Inr (pos', st')) \<Rightarrow> get_rust_functions_loop content pos' st') = Some (Inr st')"
    by (subst (asm) get_rust_functions_loop.simps) simp
  then show ?thesis
    by (simp split: option.splits sum.splits prod.splits)
qed

lemma loop_inv:
  assumes "get_rust_functions_loop content pos st = Some (Inr st')"
  shows "fst ` set (c_func st') \<subseteq> fst ` set (c_func st) \<and> set (r_func st) \<subseteq> set (r_func st')"
  using assms
proof (induction content pos st rule: get_rust_functions_loop.induct)
  case (1 content pos st)
  show ?case
  proof (cases "pos < length content")
    case False
    with "1.prems" show ?thesis by (simp add: loop_end)
  next
    case True
    from loop_returns_step [OF "1.prems" True] obtain pos1 st1
      where s: "rust_step content pos st = Some (Inr (pos1, st1))"
        and l: "get_rust_functions_loop content pos1 st1 = Some (Inr st')"
      by blast
    have a: "fst ` set (c_func st') \<subseteq> fst ` set (c_func st1)
        \<and> set (r_func st1) \<subseteq> set (r_func st')"
      using True s l by (intro "1.IH") auto
    have b: "fst ` set (c_func st1) \<subseteq> fst ` set (c_func st)
        \<and> set (r_func st) \<subseteq> set (r_func st1)"
      by (rule rust_step_inv [OF s])
    from a b show ?thesis by (meson order_trans)
  qed
qed

lemma scan_after_loop:
  assumes "scan_after content n (pos, st) = Some (Inr (pos', st'))"
  shows "get_rust_functions_loop content pos st = get_rust_functions_loop content pos' st'"
  using assms
proof (induction n arbitrary: pos st)
  case 0
  then show ?case by simp
next
  case (Suc n)
  show ?case
  proof (cases "pos < length content")
    case False
    with Suc.prems show ?thesis by simp
  next
    case True
    with Suc.prems obtain pos1 st1
      where s: "rust_step content pos st = Some (Inr (pos1, st1))"
        and a: "scan_after content n (pos1, st1) = Some (Inr (pos', st'))"
      by (auto split: option.splits sum.splits)
    from loop_step [OF True s] Suc.IH [OF a] show ?thesis by simp
  qed
qed

lemma scan_after_inv:
  assumes "scan_after content n (pos, st) = Some (Inr (pos', st'))"
  shows "fst ` set (c_func st') \<subseteq> fst ` set (c_func st)"
  using assms
proof (induction n arbitrary: pos st)
  case 0
  then show ?case by simp
next
  case (Suc n)
  show ?case
  proof (cases "pos < length content")
    case False
    with Suc.prems show ?thesis by simp
  next
    case True
    with Suc.prems obtain pos1 st1
      where s: "rust_step content pos st = Some (Inr (pos1, st1))"
        and a: "scan_after content n (pos1, st1) = Some (Inr (pos', st'))"
      by (auto split: option.splits sum.splits)
    from rust_step_inv [OF s] Suc.IH [OF a] show ?thesis by (meson order_trans)
  qed
qed

section \<open>The scan of the header\<close>

lemma c_loop_step:
  assumes "pos < length content" and "c_step content pos fs = Inr (pos', fs')"
  shows "get_c_functions_loop content pos fs = get_c_functions_loop content pos' fs'"
  using assms by (subst get_c_functions_loop.simps) simp

lemma c_loop_end:
  assumes "\<not> pos < length content"
  shows "get_c_functions_loop content pos fs = Inr fs"
  using assms by (subst get_c_functions_loop.simps) simp

lemma c_loop_returns_step:
  assumes "get_c_functions_loop content pos fs = Inr c" and "pos < length content"
  shows "\<exists>pos1 fs1. c_step content pos fs = Inr (pos1, fs1)
    \<and> get_c_functions_loop content pos1 fs1 = Inr c"
proof -
  from assms have
    "(case c_step content pos fs of
        Inl e \<Rightarrow> Inl e
      | Inr (pos', fs') \<Rightarrow> get_c_functions_loop content pos' fs') = Inr c"
    by (subst (asm) get_c_functions_loop.simps) simp
  then show ?thesis
    by (simp split: sum.splits prod.splits)
qed

lemma c_step_grows:
  assumes "c_step content pos fs = Inr (pos', fs')"
  shows "fst ` set fs \<subseteq> fst ` set fs'"
proof -
  from assms have "fs' = fs \<or> (\<exists>k v. fs' = AList.update k v fs)"
    by (auto simp: c_step_def split: if_splits sum.splits prod.splits)
  then show ?thesis
  proof (elim disjE exE)
    assume "fs' = fs"
    then show ?thesis by simp
  next
    fix k v
    assume "fs' = AList.update k v fs"
    then show ?thesis by (simp add: dom_update subset_insertI)
  qed
qed

lemma c_loop_grows:
  assumes "get_c_functions_loop content pos fs = Inr c"
  shows "fst ` set fs \<subseteq> fst ` set c"
  using assms
proof (induction content pos fs rule: get_c_functions_loop.induct)
  case (1 content pos fs)
  show ?case
  proof (cases "pos < length content")
    case False
    with "1.prems" show ?thesis by (simp add: c_loop_end)
  next
    case True
    from c_loop_returns_step [OF "1.prems" True] obtain pos1 fs1
      where s: "c_step content pos fs = Inr (pos1, fs1)"
        and l: "get_c_functions_loop content pos1 fs1 = Inr c"
      by blast
    have "fst ` set fs1 \<subseteq> fst ` set c"
      using True s l by (intro "1.IH") auto
    with c_step_grows [OF s] show ?thesis by (meson order_trans)
  qed
qed

lemma c_scan_after_loop:
  assumes "c_scan_after content n (pos, fs) = Inr (pos', fs')"
  shows "get_c_functions_loop content pos fs = get_c_functions_loop content pos' fs'"
  using assms
proof (induction n arbitrary: pos fs)
  case 0
  then show ?case by simp
next
  case (Suc n)
  show ?case
  proof (cases "pos < length content")
    case False
    with Suc.prems show ?thesis by simp
  next
    case True
    with Suc.prems obtain pos1 fs1
      where s: "c_step content pos fs = Inr (pos1, fs1)"
        and a: "c_scan_after content n (pos1, fs1) = Inr (pos', fs')"
      by (auto split: sum.splits)
    from c_loop_step [OF True s] Suc.IH [OF a] show ?thesis by simp
  qed
qed

lemma c_step_declares:
  assumes "contains '' GEOS_DLL '' (content ! pos)"
    and "c_declaration content pos = Inr (pos', name, args, ret_type)"
    and "name \<noteq> []" and "name \<notin> set TO_IGNORE"
  shows "c_step content pos fs = Inr (Suc pos', AList.update name (args, ret_type) fs)"
  using assms by (simp add: c_step_def)

lemma declared_extracted:
  assumes run: "get_c_functions header = Inr c"
    and at: "c_scan_after header n (0, []) = Inr (pos, fs)"
    and pos: "pos < length header"
    and marker: "contains '' GEOS_DLL '' (header ! pos)"
    and decl: "c_declaration header pos = Inr (pos', name, args, ret_type)"
    and ne: "name \<noteq> []" and ok: "name \<notin> set TO_IGNORE"
  shows "name \<in> fst ` set c"
proof -
  let ?fs = "AList.update name (args, ret_type) fs"
  from run c_scan_after_loop [OF at]
  have "get_c_functions_loop header pos fs = Inr c"
    by (simp add: get_c_functions_def)
  with c_loop_step [OF pos c_step_declares [OF marker decl ne ok, of fs]]
  have "get_c_functions_loop header (Suc pos') ?fs = Inr c" by simp
  from c_loop_grows [OF this] show ?thesis
    unfolding dom_update by blast
qed

section \<open>The deny-list and the report\<close>

lemma c_step_ignore:
  assumes "c_step content pos fs = Inr (pos', fs')" and "n \<in> set TO_IGNORE"
    and "n \<notin> fst ` set fs"
  shows "n \<notin> fst ` set fs'"
proof -
  from assms(1) have "fs' = fs \<or> (\<exists>k v. k \<notin> set TO_IGNORE \<and> fs' = AList.update k v fs)"
    by (auto simp: c_step_def split: if_splits sum.splits prod.splits)
  then show ?thesis
  proof (elim disjE exE conjE)
    assume "fs' = fs"
    with assms(3) show ?thesis by simp
  next
    fix k v
    assume k: "k \<notin> set TO_IGNORE" and fs': "fs' = AList.update k v fs"
    from k assms(2) have "n \<noteq> k" by blast
    with assms(3) show ?thesis unfolding fs' dom_update by simp
  qed
qed

lemma c_loop_ignore:
  assumes "get_c_functions_loop content pos fs = Inr c" and "n \<in> set TO_IGNORE"
    and "n \<notin> fst ` set fs"
  shows "n \<notin> fst ` set c"
  using assms
proof (induction content pos fs rule: get_c_functions_loop.induct)
  case (1 content pos fs)
  show ?case
  proof (cases "pos < length content")
    case False
    with "1.prems" show ?thesis
      by (subst (asm) get_c_functions_loop.simps) simp
  next
    case True
    with "1.prems"(1) have
      "(case c_step content pos fs of
          Inl e \<Rightarrow> Inl e
        | Inr (pos', fs') \<Rightarrow> get_c_functions_loop content pos' fs') = Inr c"
      by (subst (asm) get_c_functions_loop.simps) simp
    then obtain pos1 fs1 where s: "c_step content pos fs = Inr (pos1, fs1)"
      and l: "get_c_functions_loop content pos1 fs1 = Inr c"
      by (auto split: sum.splits)
    have "n \<notin> fst ` set fs1"
      by (rule c_step_ignore [OF s "1.prems"(2,3)])
    with True s l "1.prems"(2) show ?thesis
      by (intro "1.IH") auto
  qed
qed

lemma ignore_not_extracted:
  assumes "get_c_functions header = Inr c" and "n \<in> set TO_IGNORE"
  shows "n \<notin> fst ` set c"
  using assms unfolding get_c_functions_def
  by (rule c_loop_ignore) simp

lemma set_not_bound: "set (not_bound st) = fst ` set (c_func st)"
  by (simp add: not_bound_def)

lemma set_extra: "set (extra st) = set (r_func st)"
  by (simp add: extra_def)

lemma run_keys:
  assumes "get_rust_functions binding c = Some (Inr st)"
  shows "fst ` set (c_func st) \<subseteq> fst ` set c"
  using loop_inv [OF assms [unfolded get_rust_functions_def]]
  by (simp add: scan_start_def)

lemma check_missing_returns:
  assumes "check_missing header binding = Some (Inr (out, status))"
  shows "\<exists>c st. get_c_functions header = Inr c \<and> get_rust_functions binding c = Some (Inr st)
           \<and> out = report st \<and> status = exit_status st"
  using assms
  by (auto simp: check_missing_def split: sum.splits option.splits)

lemma rust_step_cases:
  assumes "rust_step content pos st = Some (Inr (pos', st'))"
  shows "c_func st' = c_func st
     \<or> (contains '' fn '' (content ! pos)
        \<and> c_func st' = AList.delete (declared_name (content ! pos)) (c_func st))"
proof (cases "contains '' fn '' (content ! pos)")
  case False
  with assms show ?thesis by (simp add: rust_step_skip)
next
  case True
  show ?thesis
  proof (cases "declared_name (content ! pos) \<in> fst ` set (c_func st)")
    case True
    from rust_step_matched [OF \<open>contains '' fn '' (content ! pos)\<close> True assms]
    show ?thesis using \<open>contains '' fn '' (content ! pos)\<close> by simp
  next
    case False
    from assms rust_step_unmatched [OF True False] show ?thesis
      by (auto split: if_splits)
  qed
qed

lemma rust_step_filter:
  assumes "rust_step content pos st = Some (Inr (pos', st'))"
  shows "\<exists>P. c_func st' = filter P (c_func st)"
proof -
  from rust_step_cases [OF assms] show ?thesis
  proof
    assume "c_func st' = c_func st"
    then have "c_func st' = filter (\<lambda>p. True) (c_func st)" by simp
    then show ?thesis by blast
  next
    assume "contains '' fn '' (content ! pos)
      \<and> c_func st' = AList.delete (declared_name (content ! pos)) (c_func st)"
    then have "c_func st' = filter (\<lambda>p. fst p \<noteq> declared_name (content ! pos)) (c_func st)"
      by (simp add: AList.delete_eq case_prod_unfold) (metis)
    then show ?thesis by blast
  qed
qed

lemma loop_filter:
  assumes "get_rust_functions_loop content pos st = Some (Inr st')"
  shows "\<exists>P. c_func st' = filter P (c_func st)"
  using assms
proof (induction content pos st rule: get_rust_functions_loop.induct)
  case (1 content pos st)
  show ?case
  proof (cases "pos < length content")
    case False
    with "1.prems" have "c_func st' = filter (\<lambda>p. True) (c_func st)" by (simp add: loop_end)
    then show ?thesis by blast
  next
    case True
    from loop_returns_step [OF "1.prems" True] obtain pos1 st1
      where s: "rust_step content pos st = Some (Inr (pos1, st1))"
        and l: "get_rust_functions_loop content pos1 st1 = Some (Inr st')"
      by blast
    have "\<exists>P. c_func st' = filter P (c_func st1)"
      using True s l by (intro "1.IH") auto
    then obtain P where P: "c_func st' = filter P (c_func st1)" ..
    from rust_step_filter [OF s] obtain Q where Q: "c_func st1 = filter Q (c_func st)" ..
    have "c_func st' = filter (\<lambda>p. Q p \<and> P p) (c_func st)"
      unfolding P Q by simp
    then show ?thesis by blast
  qed
qed

lemma in_delete: "k' \<noteq> k \<Longrightarrow> k' \<in> fst ` set al \<Longrightarrow> k' \<in> fst ` set (AList.delete k al)"
  by (induction al) auto

lemma loop_keeps:
  assumes "get_rust_functions_loop content pos st = Some (Inr st')"
    and "name \<in> fst ` set (c_func st)"
    and "\<forall>line\<in>set content. contains '' fn '' line \<longrightarrow> declared_name line \<noteq> name"
  shows "name \<in> fst ` set (c_func st')"
  using assms
proof (induction content pos st rule: get_rust_functions_loop.induct)
  case (1 content pos st)
  show ?case
  proof (cases "pos < length content")
    case False
    with "1.prems" show ?thesis by (simp add: loop_end)
  next
    case True
    from loop_returns_step [OF "1.prems"(1) True] obtain pos1 st1
      where s: "rust_step content pos st = Some (Inr (pos1, st1))"
        and l: "get_rust_functions_loop content pos1 st1 = Some (Inr st')"
      by blast
    from True have mem: "content ! pos \<in> set content" by simp
    have "name \<in> fst ` set (c_func st1)"
    proof -
      from rust_step_cases [OF s] show ?thesis
      proof
        assume "c_func st1 = c_func st"
        with "1.prems"(2) show ?thesis by simp
      next
        assume a: "contains '' fn '' (content ! pos)
          \<and> c_func st1 = AList.delete (declared_name (content ! pos)) (c_func st)"
        with "1.prems"(3) mem have "name \<noteq> declared_name (content ! pos)" by blast
        from in_delete [OF this "1.prems"(2)] a show ?thesis by simp
      qed
    qed
    with True s l "1.prems"(3) show ?thesis
      by (intro "1.IH") auto
  qed
qed

lemma loop_total_unmatched:
  assumes "\<forall>line\<in>set content. contains '' fn '' line
      \<longrightarrow> declared_name line \<notin> fst ` set (c_func st)"
  shows "\<exists>st'. get_rust_functions_loop content pos st = Some (Inr st')
     \<and> c_func st' = c_func st \<and> errors st' = errors st \<and> printed st' = printed st"
  using assms
proof (induction content pos st rule: get_rust_functions_loop.induct)
  case (1 content pos st)
  show ?case
  proof (cases "pos < length content")
    case False
    then show ?thesis by (simp add: loop_end)
  next
    case True
    then have mem: "content ! pos \<in> set content" by simp
    have "\<exists>st1. rust_step content pos st = Some (Inr (Suc pos, st1)) \<and> c_func st1 = c_func st
        \<and> errors st1 = errors st \<and> printed st1 = printed st"
    proof (cases "contains '' fn '' (content ! pos)")
      case False
      then show ?thesis by (simp add: rust_step_skip)
    next
      case True
      with "1.prems" mem have "declared_name (content ! pos) \<notin> fst ` set (c_func st)"
        by blast
      from rust_step_unmatched [OF True this] show ?thesis by simp
    qed
    then obtain st1 where s: "rust_step content pos st = Some (Inr (Suc pos, st1))"
      and e: "c_func st1 = c_func st" "errors st1 = errors st" "printed st1 = printed st"
      by blast
    have "\<exists>st'. get_rust_functions_loop content (Suc pos) st1 = Some (Inr st')
        \<and> c_func st' = c_func st1 \<and> errors st' = errors st1 \<and> printed st' = printed st1"
      using True s "1.prems" e(1) by (intro "1.IH") auto
    with loop_step [OF True s] e show ?thesis by simp
  qed
qed

lemma exit_status_left:
  assumes "c_func st \<noteq> [] \<or> r_func st \<noteq> []"
  shows "exit_status st = 1"
  using assms by (auto simp: exit_status_def)

lemma check_missing_run:
  assumes "get_c_functions header = Inr c" and "get_rust_functions binding c = Some (Inr st)"
  shows "check_missing header binding = Some (Inr (report st, exit_status st))"
  using assms by (simp add: check_missing_def)

lemma ignore_nonempty: "n \<in> set TO_IGNORE \<Longrightarrow> n \<noteq> []"
  by (auto simp: TO_IGNORE_def)

section \<open>Splitting at one character, joining and stripping\<close>

lemma split_char_Cons:
  "split [d] (c # cs) =
     (if c = d then [] # split [d] cs
      else (case split [d] cs of [] \<Rightarrow> [[c]] | w # ws \<Rightarrow> (c # w) # ws))"
  by simp

lemma split_char_no_sep: "t \<in> set (split [d] s) \<Longrightarrow> d \<notin> set t"
proof (induction s arbitrary: t)
  case Nil
  then show ?case by simp
next
  case (Cons c cs)
  show ?case
  proof (cases "c = d")
    case True
    with Cons.prems have "t = [] \<or> t \<in> set (split [d] cs)"
      by (simp only: split_char_Cons) auto
    with Cons.IH show ?thesis by auto
  next
    case False
    obtain w ws where w: "split [d] cs = w # ws"
      using split_nonempty [of "[d]" cs] by (cases "split [d] cs") auto
    with False Cons.prems have "t = c # w \<or> t \<in> set ws"
      by (simp only: split_char_Cons) auto
    with Cons.IH [of w] Cons.IH [of t] w False show ?thesis by auto
  qed
qed

lemma split_char_subset: "t \<in> set (split [d] s) \<Longrightarrow> set t \<subseteq> set s"
proof (induction s arbitrary: t)
  case Nil
  then show ?case by simp
next
  case (Cons c cs)
  show ?case
  proof (cases "c = d")
    case True
    with Cons.prems have "t = [] \<or> t \<in> set (split [d] cs)"
      by (simp only: split_char_Cons) auto
    with Cons.IH show ?thesis by auto
  next
    case False
    obtain w ws where w: "split [d] cs = w # ws"
      using split_nonempty [of "[d]" cs] by (cases "split [d] cs") auto
    with False Cons.prems have "t = c # w \<or> t \<in> set ws"
      by (simp only: split_char_Cons) auto
    with Cons.IH [of w] Cons.IH [of t] w show ?thesis by auto
  qed
qed

lemma split_char_token: "d \<notin> set t \<Longrightarrow> split [d] t = [t]"
  by (induction t) (auto simp del: split.simps(2) simp: split_char_Cons)

lemma split_char_append:
  "d \<notin> set t \<Longrightarrow> split [d] (t @ d # rest) = t # split [d] rest"
  by (induction t) (auto simp del: split.simps(2) simp: split_char_Cons)

lemma split_join:
  assumes "toks \<noteq> []" and "\<forall>t\<in>set toks. d \<notin> set t"
  shows "split [d] (join [d] toks) = toks"
  using assms
proof (induction "[d]" toks rule: join.induct)
  case 1
  then show ?case by simp
next
  case (2 x)
  then show ?case by (simp add: split_char_token del: split.simps)
next
  case (3 x y ys)
  then show ?case by (simp add: split_char_append del: split.simps)
qed

lemma strip_clean: "\<forall>ch\<in>set t. \<not> is_space ch \<Longrightarrow> strip t = t"
proof -
  assume a: "\<forall>ch\<in>set t. \<not> is_space ch"
  then have "dropWhile is_space t = t" by (cases t) auto
  moreover from a have "dropWhile is_space (rev t) = rev t" by (cases "rev t") auto
  ultimately show ?thesis by (simp add: strip_def)
qed

lemma strip_ends:
  assumes "s \<noteq> []" and "\<not> is_space (hd s)" and "\<not> is_space (last s)"
  shows "strip s = s"
proof -
  from assms have "dropWhile is_space s = s" by (cases s) auto
  moreover from assms have "dropWhile is_space (rev s) = rev s"
    by (cases "rev s") (auto simp: last_rev [symmetric] hd_rev)
  ultimately show ?thesis by (simp add: strip_def)
qed

lemma set_strip: "set (strip s) \<subseteq> set s"
proof -
  have "set (strip s) = set (dropWhile is_space (rev (dropWhile is_space s)))"
    by (simp add: strip_def)
  also have "\<dots> \<subseteq> set (rev (dropWhile is_space s))"
    by (auto dest: set_dropWhileD)
  also have "\<dots> \<subseteq> set s"
    by (auto dest: set_dropWhileD)
  finally show ?thesis .
qed

lemma hd_join: "t \<noteq> [] \<Longrightarrow> hd (join sep (t # ts)) = hd t"
  by (cases ts) auto

lemma last_join:
  "ts \<noteq> [] \<Longrightarrow> last ts \<noteq> [] \<Longrightarrow> join sep ts \<noteq> [] \<and> last (join sep ts) = last (last ts)"
  by (induction sep ts rule: join.induct) auto

section \<open>The translator on tokens without pointers\<close>

lemma drop_const_filter:
  "snd (drop_const pos ps b acc) = acc @ filter (\<lambda>p. p \<noteq> ''const'') ps"
  by (induction ps arbitrary: pos b acc) auto

lemma suffix_star: "suffix ''*'' t \<Longrightarrow> CHR ''*'' \<in> set t"
  by (auto simp: suffix_def)

lemma suffix_marker: "suffix ''*const'' t \<Longrightarrow> CHR ''*'' \<in> set t"
  by (auto simp: suffix_def)

lemma peel_pointers_none:
  assumes "ct \<noteq> []" and "CHR ''*'' \<notin> set (last ct)"
  shows "peel_pointers b ct = Inr ct"
  using assms suffix_star [of "last ct"]
  by (subst peel_pointers.simps) auto

lemma peel_pointers_empty: "peel_pointers b [] = Inl IndexError"
  by (subst peel_pointers.simps) simp

lemma peel_const_none:
  assumes "ct \<noteq> []" and "CHR ''*'' \<notin> set (last ct)"
  shows "peel_const ct = Some (Inr ct)"
  using assms suffix_marker [of "last ct"]
  by (subst peel_const.simps) auto

lemma substitute_map:
  "''unsigned'' \<notin> set ts \<Longrightarrow> substitute ts = Inr (map inline_conv_get ts)"
  by (induction ts) auto

lemma inline_conv_get_cases:
  "inline_conv_get t = t \<and> t \<notin> {''int'', ''char'', ''void'', ''double'', ''float''}
   \<or> t = ''int'' \<and> inline_conv_get t = ''c_int''
   \<or> t = ''char'' \<and> inline_conv_get t = ''c_char''
   \<or> t = ''void'' \<and> inline_conv_get t = ''c_void''
   \<or> t = ''double'' \<and> inline_conv_get t = ''c_double''
   \<or> t = ''float'' \<and> inline_conv_get t = ''c_float''"
  by (simp add: inline_conv_get_def inline_conv_def)

lemma plain_outputs:
  "plain ''c_int''" "plain ''c_char''" "plain ''c_void''" "plain ''c_double''" "plain ''c_float''"
  by (simp_all add: plain_def is_space_def)

lemma inline_conv_get_plain: "plain t \<Longrightarrow> plain (inline_conv_get t)"
  using inline_conv_get_cases [of t] plain_outputs by auto

lemma inline_conv_get_idem: "inline_conv_get (inline_conv_get t) = inline_conv_get t"
  using inline_conv_get_cases [of t]
  by (auto simp: inline_conv_get_def inline_conv_def)

lemma inline_conv_get_const: "inline_conv_get t = ''const'' \<longleftrightarrow> t = ''const''"
  using inline_conv_get_cases [of t] by auto

lemma inline_conv_get_unsigned: "inline_conv_get t = ''unsigned'' \<longleftrightarrow> t = ''unsigned''"
  using inline_conv_get_cases [of t] by auto

lemma convert_tokens:
  assumes parts: "split '' '' (strip c) = parts"
    and pl: "\<forall>p\<in>set parts. plain p"
    and uns: "''unsigned'' \<notin> set parts"
  shows "convert_c_to_rust c =
     (if filter (\<lambda>p. p \<noteq> ''const'') parts = [] then Some (Inl IndexError)
      else Some (Inr (join '' '' (filter (\<lambda>x. x \<noteq> [])
             (map inline_conv_get (filter (\<lambda>p. p \<noteq> ''const'') parts))))))"
proof -
  let ?ct = "filter (\<lambda>p. p \<noteq> ''const'') parts"
  obtain b where dc: "drop_const 0 parts False [] = (b, ?ct)"
    using drop_const_filter [of 0 parts False "[]"]
    by (cases "drop_const 0 parts False []") auto
  show ?thesis
  proof (cases "?ct = []")
    case True
    then show ?thesis
      by (simp add: convert_c_to_rust_def parts dc peel_pointers_empty)
  next
    case False
    then have "last ?ct \<in> set ?ct" by (rule last_in_set)
    with pl have "plain (last ?ct)" by simp
    then have star: "CHR ''*'' \<notin> set (last ?ct)" by (simp add: plain_def)
    from uns have u: "''unsigned'' \<notin> set ?ct" by simp
    have "\<forall>t\<in>set ?ct. strip (inline_conv_get t) = inline_conv_get t"
    proof
      fix t assume "t \<in> set ?ct"
      with pl have "plain t" by simp
      then have "plain (inline_conv_get t)" by (rule inline_conv_get_plain)
      then show "strip (inline_conv_get t) = inline_conv_get t"
        by (simp add: plain_def strip_clean)
    qed
    then have m: "map strip (map inline_conv_get ?ct) = map inline_conv_get ?ct"
      by (simp add: map_idI)
    have "convert_c_to_rust c =
        Some (Inr (join '' '' (filter (\<lambda>x. length x > 0) (map strip (map inline_conv_get ?ct)))))"
      by (simp add: convert_c_to_rust_def parts dc peel_pointers_none [OF False star]
          peel_const_none [OF False star] substitute_map [OF u] del: map_map)
    with False show ?thesis by (simp only: m) simp
  qed
qed

lemma space_is_space: "is_space CHR '' ''"
  by (simp add: is_space_def)

lemma convert_empty: "convert_c_to_rust [] = Some (Inr [])"
  by code_simp

section \<open>The translator on single types\<close>

text \<open>
  On the one-token list that holds only the array marker the third loop empties the
  token, pops it and puts a fresh marker in front: the list it started from. No call
  of \<open>peel_const\<close> on it returns.
\<close>

lemma peel_const_marker: "peel_const [''*const''] = None"
proof (rule ccontr)
  assume "peel_const [''*const''] \<noteq> None"
  then obtain y where y: "peel_const [''*const''] = Some y" by auto
  have "[''*const''] \<noteq> [''*const'']"
  proof (rule peel_const.raw_induct
      [rotated, where P = "\<lambda>ct r. ct \<noteq> [''*const'']", OF y], goal_cases)
    case (1 peel ct r)
    show ?case
    proof
      assume ct: "ct = [''*const'']"
      have s: "strip [] = []" by (simp add: strip_def)
      from "1"(2) have "peel [''*const''] = Some r"
        unfolding ct by (simp add: s)
      from "1"(1) [OF this] show False by simp
    qed
  qed
  then show False by simp
qed

lemma convert_marker: "convert_c_to_rust ''*const'' = None"
proof -
  have "strip ''*const'' = ''*const''" by code_simp
  moreover have "split '' '' ''*const'' = [''*const'']" by code_simp
  moreover have "drop_const 0 [''*const''] False [] = (False, [''*const''])" by code_simp
  moreover have "peel_pointers False [''*const''] = Inr [''*const'']" by code_simp
  ultimately show ?thesis
    unfolding convert_c_to_rust_def by (simp add: peel_const_marker)
qed

text \<open>A run that compares a function with such a parameter never ends.\<close>

lemma run_diverges:
  "check_missing [''extern int GEOS_DLL F(double[], int n);'']
     [''    pub fn F(a: *const c_double, n: c_int) -> c_int;''] = None"
proof -
  let ?H = "[''extern int GEOS_DLL F(double[], int n);'']"
  let ?B = "[''    pub fn F(a: *const c_double, n: c_int) -> c_int;'']"
  let ?C = "[(''F'', [''*const'', ''int''], ''int'')]"
  have h: "get_c_functions ?H = Inr ?C" by code_simp
  have f: "contains '' fn '' (?B ! 0)" by code_simp
  have p: "getitem (split '' fn '' (?B ! 0)) 1 = Inr ''F(a: *const c_double, n: c_int) -> c_int;''"
    by code_simp
  have n: "strip (hd (split ''('' ''F(a: *const c_double, n: c_int) -> c_int;'')) = ''F''"
    by code_simp
  have s: "rust_signature ?B 0 (split ''('' ''F(a: *const c_double, n: c_int) -> c_int;'')
      = Inr (0, [''*const c_double'', ''c_int''], ''c_int'')" by code_simp
  have n': "strip ''F'' = ''F''" by code_simp
  have s': "rust_signature ?B 0 [''F'', ''a: *const c_double, n: c_int) -> c_int;'']
      = Inr (0, [''*const c_double'', ''c_int''], ''c_int'')" by code_simp
  have c: "compare_rust_and_c_funcs ''F'' ([''*const'', ''int''], ''int'')
      [''*const c_double'', ''c_int''] ''c_int'' = None"
    by (simp add: compare_rust_and_c_funcs_def convert_marker)
  have "rust_step ?B 0 (scan_start ?C) = None"
    unfolding rust_step_def Let_def
    by (simp only: f p n s) (simp add: scan_start_def c n' s')
  then have "get_rust_functions ?B ?C = None"
    unfolding get_rust_functions_def
    by (subst get_rust_functions_loop.simps) simp
  with h show ?thesis by (simp add: check_missing_def)
qed

text \<open>
  Claim C4 says that an array parameter comes out as \<^verbatim>\<open>double *const\<close> does: the extractor
  turns each trailing \<^verbatim>\<open>[]\<close> of a declarator into the marker \<^verbatim>\<open> *const\<close>, and the translator
  turns the marker into a leading \<^verbatim>\<open>*const\<close>. The extractor does so for the text of a
  continuation line, from which line 72 cuts the closing \<^verbatim>\<open>);\<close>. Line 68 passes the text of
  the first line with its \<^verbatim>\<open>);\<close>, so the last parameter of a declaration written on one
  line ends in \<^verbatim>\<open>[]);\<close>, not in \<^verbatim>\<open>[]\<close>: its array suffix is not seen, \<^verbatim>\<open>double arr[]\<close> is
  extracted as \<^verbatim>\<open>double\<close> and \<^verbatim>\<open>double[]\<close> as the empty string, and the binding that
  declares the parameter \<^verbatim>\<open>*const c_double\<close> is reported to differ. The same declaration
  written on two lines is extracted as \<^verbatim>\<open>double *const\<close> and agrees with that binding.
\<close>

theorem C4_array_parameter_missed:
  "get_c_functions [''extern int GEOS_DLL F(double arr[]);'']
     = Inr [(''F'', [''double''], ''int'')]
   \<and> get_c_functions [''extern int GEOS_DLL F(double[]);'']
     = Inr [(''F'', [[]], ''int'')]
   \<and> get_c_functions [''extern int GEOS_DLL F('', ''    double arr[]);'']
     = Inr [(''F'', [''double *const''], ''int'')]
   \<and> convert_c_to_rust ''double'' = Some (Inr ''c_double'')
   \<and> convert_c_to_rust ''double *const'' = Some (Inr ''*const c_double'')
   \<and> check_missing [''extern int GEOS_DLL F(double arr[]);'']
        [''    pub fn F(arr: *const c_double) -> c_int;'']
       = Some (Inr ([params_differ ''F'' ''c_double'' ''*const c_double'',
                     ''==> Not bound functions:'', [], ''==> Extra (???) rust functions:''], 1))
   \<and> check_missing [''extern int GEOS_DLL F('', ''    double arr[]);'']
        [''    pub fn F(arr: *const c_double) -> c_int;'']
       = Some (Inr ([''==> Not bound functions:'', [], ''==> Extra (???) rust functions:''], 0))"
  by code_simp

text \<open>
  Claim C5: \<^verbatim>\<open>const double *\<close> translates to a read-only pointer and \<^verbatim>\<open>double *\<close> to a
  mutable one; the two results differ in the leading marker only, \<^verbatim>\<open>*const\<close> against
  \<^verbatim>\<open>*mut\<close>, and both end in the same primitive \<^verbatim>\<open>c_double\<close>.
\<close>

theorem C5_const_and_mut_pointer:
  "convert_c_to_rust ''const double *'' = Some (Inr (''*const'' @ '' c_double''))
   \<and> convert_c_to_rust ''double *'' = Some (Inr (''*mut'' @ '' c_double''))"
  by code_simp

text \<open>
  Claim C6 says that a parameter whose last token is nothing but \<^verbatim>\<open>[]\<close> suffixes, as in
  \<^verbatim>\<open>double []\<close>, gets its type back by a second \<^verbatim>\<open>pop\<close> and is parsed to a type string. Line 30
  does call \<^verbatim>\<open>params.pop()\<close>, but line 25 has already joined \<^verbatim>\<open>params\<close> into a string: the
  call raises AttributeError, and so do the extractor and the whole script on a header
  that holds such a parameter.
\<close>

theorem C6_anonymous_array_raises:
  "get_c_args ''double []'' [] = Inl AttributeError
   \<and> get_c_functions [''extern int GEOS_DLL F(double [], int n);''] = Inl AttributeError
   \<and> check_missing [''extern int GEOS_DLL F(double [], int n);''] [] = Some (Inl AttributeError)"
  by code_simp

text \<open>
  Claim C9 says that the translator returns on every input, the bare marker \<^verbatim>\<open>*const\<close>
  included. The extractor does produce that string, for the parameter \<^verbatim>\<open>double[]\<close>, and on
  it the translator never leaves its third loop; neither does the script, once the
  binding declares the function that has the parameter.
\<close>

theorem C9_translator_diverges:
  "get_c_args ''double[], int n'' [] = Inr [''*const'', ''int'']
   \<and> convert_c_to_rust ''*const'' = None
   \<and> check_missing [''extern int GEOS_DLL F(double[], int n);'']
        [''    pub fn F(a: *const c_double, n: c_int) -> c_int;''] = None"
proof -
  have "get_c_args ''double[], int n'' [] = Inr [''*const'', ''int'']"
    by code_simp
  then show ?thesis
    by (simp add: convert_marker run_diverges)
qed

section \<open>The comparator, the deny-list and the exit status\<close>

text \<open>
  Claim C3: when the translated C parameters, joined by commas, are the joined parameters
  of the binding, a C signature with return type \<^verbatim>\<open>void\<close> compares equal to a binding
  exactly when the binding has no return type (the empty string): then the comparator
  returns \<^verbatim>\<open>True\<close> and prints nothing, and for any other return type of the binding it
  returns \<^verbatim>\<open>False\<close> and prints that the empty string differs from it. The translator
  itself maps \<^verbatim>\<open>void\<close> to \<^verbatim>\<open>c_void\<close>; it is the comparator that turns \<^verbatim>\<open>c_void\<close> into the
  empty string.
\<close>

theorem C3_void_return:
  assumes "convert_all c_args = Some (Inr converted)"
    and "join '','' converted = join '','' rust_args"
  shows "compare_rust_and_c_funcs name (c_args, ''void'') rust_args [] = Some (Inr (True, []))
     \<and> compare_rust_and_c_funcs name (c_args, ''void'') rust_args ret_type
         = Some (Inr (ret_type = [],
             if ret_type = [] then [] else [ret_differ name [] ret_type]))
     \<and> convert_c_to_rust ''void'' = Some (Inr ''c_void'')"
proof -
  have v: "convert_c_to_rust ''void'' = Some (Inr ''c_void'')"
    by code_simp
  with assms show ?thesis
    by (auto simp: compare_rust_and_c_funcs_def)
qed

text \<open>
  The theorem at a signature of two parameters, against a binding with no return type
  and against one that declares \<^verbatim>\<open>c_void\<close>.
\<close>

theorem C3_void_return_witness:
  "convert_all [''const double *'', ''int''] = Some (Inr [''*const c_double'', ''c_int''])
   \<and> join '','' [''*const c_double'', ''c_int''] = join '','' [''*const c_double'', ''c_int'']
   \<and> compare_rust_and_c_funcs ''F'' ([''const double *'', ''int''], ''void'')
        [''*const c_double'', ''c_int''] [] = Some (Inr (True, []))
   \<and> compare_rust_and_c_funcs ''F'' ([''const double *'', ''int''], ''void'')
        [''*const c_double'', ''c_int''] ''c_void''
       = Some (Inr (False, [ret_differ ''F'' [] ''c_void'']))
   \<and> convert_c_to_rust ''void'' = Some (Inr ''c_void'')"
proof -
  have h: "convert_all [''const double *'', ''int''] = Some (Inr [''*const c_double'', ''c_int''])"
    by code_simp
  from C3_void_return [OF h refl, of "''F''" "''c_void''"] h show ?thesis by simp
qed

text \<open>
  Claim C8: a name of the deny-list is never a key of the dict that the extractor
  returns, so whatever the binding holds it is not in the dict that is left after the
  scan, and is not printed among the functions that are not bound.
\<close>

theorem C8_deny_list_never_missing:
  assumes "get_c_functions header = Inr c" and "n \<in> set TO_IGNORE"
  shows "n \<notin> fst ` set c
     \<and> (\<forall>binding st. get_rust_functions binding c = Some (Inr st) \<longrightarrow> n \<notin> set (not_bound st))"
proof -
  have n: "n \<notin> fst ` set c"
    by (rule ignore_not_extracted [OF assms])
  moreover have "n \<notin> set (not_bound st)"
    if "get_rust_functions binding c = Some (Inr st)" for binding st
    using run_keys [OF that] n unfolding set_not_bound by blast
  ultimately show ?thesis by blast
qed

text \<open>The theorem at a header that declares a deny-listed name and one more function.\<close>

theorem C8_deny_list_never_missing_witness:
  "get_c_functions [''extern int GEOS_DLL initGEOS_r(int x);'', ''extern int GEOS_DLL F(int x);'']
     = Inr [(''F'', [''int''], ''int'')]
   \<and> ''initGEOS_r'' \<in> set TO_IGNORE
   \<and> get_rust_functions [] [(''F'', [''int''], ''int'')]
       = Some (Inr \<lparr>c_func = [(''F'', [''int''], ''int'')], r_func = [], errors = 0, printed = []\<rparr>)
   \<and> ''initGEOS_r'' \<notin> fst ` set [(''F'', [''int''], ''int'')]
   \<and> ''initGEOS_r'' \<notin> set (not_bound
        \<lparr>c_func = [(''F'', [''int''], ''int'')], r_func = [], errors = 0, printed = []\<rparr>)"
proof -
  have h: "get_c_functions
      [''extern int GEOS_DLL initGEOS_r(int x);'', ''extern int GEOS_DLL F(int x);'']
     = Inr [(''F'', [''int''], ''int'')]"
    by code_simp
  have i: "''initGEOS_r'' \<in> set TO_IGNORE"
    by (simp add: TO_IGNORE_def)
  have r: "get_rust_functions [] [(''F'', [''int''], ''int'')]
       = Some (Inr \<lparr>c_func = [(''F'', [''int''], ''int'')], r_func = [], errors = 0, printed = []\<rparr>)"
    by (simp add: get_rust_functions_def scan_start_def loop_end)
  from C8_deny_list_never_missing [OF h i] r h i show ?thesis by blast
qed

text \<open>
  Claim C2: a run that reaches line 204 exits with status 0 exactly when no comparison
  failed, the dict is empty and the set of extra names is empty; in every other case it
  exits with status 1.
\<close>

theorem C2_exit_status:
  assumes "check_missing header binding = Some (Inr (out, status))"
  shows "\<exists>c st. get_c_functions header = Inr c \<and> get_rust_functions binding c = Some (Inr st)
      \<and> (status = 0 \<longleftrightarrow> \<not> errored st \<and> c_func st = [] \<and> r_func st = [])
      \<and> (status = 0 \<or> status = 1)"
proof -
  from check_missing_returns [OF assms] obtain c st
    where c: "get_c_functions header = Inr c"
      and st: "get_rust_functions binding c = Some (Inr st)"
      and status: "status = exit_status st"
    by blast
  show ?thesis
    by (rule exI [of _ c], rule exI [of _ st]) (simp add: c st status exit_status_def)
qed

text \<open>The theorem at a header and a binding that agree.\<close>

theorem C2_exit_status_witness:
  "check_missing [''extern int GEOS_DLL GEOSFunc(const double * arg);'']
      [''    pub fn GEOSFunc(arg: *const c_double) -> c_int;'']
     = Some (Inr ([''==> Not bound functions:'', [], ''==> Extra (???) rust functions:''], 0))
   \<and> (\<exists>c st. get_c_functions [''extern int GEOS_DLL GEOSFunc(const double * arg);''] = Inr c
        \<and> get_rust_functions [''    pub fn GEOSFunc(arg: *const c_double) -> c_int;''] c
             = Some (Inr st)
        \<and> \<not> errored st \<and> c_func st = [] \<and> r_func st = [])"
proof -
  have h: "check_missing [''extern int GEOS_DLL GEOSFunc(const double * arg);'']
      [''    pub fn GEOSFunc(arg: *const c_double) -> c_int;'']
     = Some (Inr ([''==> Not bound functions:'', [], ''==> Extra (???) rust functions:''], 0))"
    by code_simp
  from C2_exit_status [OF h] h show ?thesis by simp
qed

section \<open>A key that no line of the binding declares\<close>

lemma missing_of_key:
  assumes "get_c_functions header = Inr c" and "name \<in> fst ` set c"
    and "\<forall>line\<in>set binding. contains '' fn '' line \<longrightarrow> declared_name line \<noteq> name"
  shows "(\<forall>st. get_rust_functions binding c = Some (Inr st) \<longrightarrow>
            name \<in> set (not_bound st)
          \<and> (map fst c = [name] \<longrightarrow> not_bound st = [name])
          \<and> check_missing header binding = Some (Inr (report st, 1)))
     \<and> ((\<forall>line\<in>set binding. contains '' fn '' line \<longrightarrow> declared_name line \<notin> fst ` set c) \<longrightarrow>
          (\<exists>st. get_rust_functions binding c = Some (Inr st) \<and> c_func st = c \<and> \<not> errored st))"
proof (intro conjI allI impI)
  fix st
  assume run: "get_rust_functions binding c = Some (Inr st)"
  then have loop: "get_rust_functions_loop binding 0 (scan_start c) = Some (Inr st)"
    by (simp add: get_rust_functions_def)
  from assms(2) have "name \<in> fst ` set (c_func (scan_start c))"
    by (simp add: scan_start_def)
  from loop_keeps [OF loop this assms(3)] have kept: "name \<in> fst ` set (c_func st)" .
  then show "name \<in> set (not_bound st)"
    by (simp add: set_not_bound)
  from kept have "c_func st \<noteq> []" by auto
  then have "exit_status st = 1" by (simp add: exit_status_left)
  with check_missing_run [OF assms(1) run]
  show "check_missing header binding = Some (Inr (report st, 1))" by simp
  assume only: "map fst c = [name]"
  from loop_filter [OF loop] obtain P where P: "c_func st = filter P c"
    by (auto simp: scan_start_def)
  from only obtain v where c: "c = [(name, v)]" by auto
  from kept have "c_func st = c" unfolding P c by (auto split: if_splits)
  with only show "not_bound st = [name]" by (simp add: not_bound_def)
next
  assume "\<forall>line\<in>set binding. contains '' fn '' line \<longrightarrow> declared_name line \<notin> fst ` set c"
  then have "\<forall>line\<in>set binding. contains '' fn '' line
      \<longrightarrow> declared_name line \<notin> fst ` set (c_func (scan_start c))"
    by (simp add: scan_start_def)
  from loop_total_unmatched [OF this, of 0]
  show "\<exists>st. get_rust_functions binding c = Some (Inr st) \<and> c_func st = c \<and> \<not> errored st"
    by (auto simp: get_rust_functions_def scan_start_def errored_def)
qed

section \<open>Missing and extra bindings\<close>

text \<open>
  Claim C1, as stated: whenever a line of the header holds the export marker and the name
  it declares is not on the deny-list, and the binding does not declare that name, the
  name is printed as not bound. It is not when the scan never takes the line for the
  start of a declaration. Line 69 asks whether the text after \<^verbatim>\<open>(\<close> ends in \<^verbatim>\<open>);\<close>; after a
  declaration of \<^verbatim>\<open>G\<close> that a space follows it does not, and the inner loop reads the next
  line, which declares \<^verbatim>\<open>F\<close>, as one more parameter of \<^verbatim>\<open>G\<close>. Only \<^verbatim>\<open>G\<close> is printed.
\<close>

theorem C1_swallowed_line_counterexample:
  "contains '' GEOS_DLL '' ''extern int GEOS_DLL F(int x);''
   \<and> c_declaration [''extern int GEOS_DLL G(int a); '', ''extern int GEOS_DLL F(int x);''] 1
       = Inr (1, ''F'', [''int''], ''int'')
   \<and> ''F'' \<notin> set TO_IGNORE
   \<and> get_c_functions [''extern int GEOS_DLL G(int a); '', ''extern int GEOS_DLL F(int x);'']
       = Inr [(''G'', [''int'', ''extern int GEOS_DLL F(int''], ''int'')]
   \<and> check_missing [''extern int GEOS_DLL G(int a); '', ''extern int GEOS_DLL F(int x);''] []
       = Some (Inr ([''==> Not bound functions:'', ''G'', [],
                     ''==> Extra (???) rust functions:''], 1))"
proof -
  have "''F'' \<notin> set TO_IGNORE" by (simp add: TO_IGNORE_def)
  moreover have "contains '' GEOS_DLL '' ''extern int GEOS_DLL F(int x);''" by code_simp
  moreover have
    "c_declaration [''extern int GEOS_DLL G(int a); '', ''extern int GEOS_DLL F(int x);''] 1
       = Inr (1, ''F'', [''int''], ''int'')" by code_simp
  moreover have
    "get_c_functions [''extern int GEOS_DLL G(int a); '', ''extern int GEOS_DLL F(int x);'']
       = Inr [(''G'', [''int'', ''extern int GEOS_DLL F(int''], ''int'')]" by code_simp
  moreover have
    "check_missing [''extern int GEOS_DLL G(int a); '', ''extern int GEOS_DLL F(int x);''] []
       = Some (Inr ([''==> Not bound functions:'', ''G'', [],
                     ''==> Extra (???) rust functions:''], 1))" by code_simp
  ultimately show ?thesis by simp
qed

text \<open>
  Claim C1, amended: let the scan of the header come, as to the start of a declaration,
  to a line that holds the export marker and from which lines 60 to 76 read the name
  \<open>name\<close>, not empty and not on the deny-list; let the extractor return a dict \<open>c\<close>; and let
  no line of the binding that holds the marker \<^verbatim>\<open> fn \<close> declare \<open>name\<close>. Then \<open>name\<close> is a key of
  \<open>c\<close>; every run that completes its scan of the binding has \<open>name\<close> among the functions it
  prints as not bound, and only \<open>name\<close> when the header declares nothing else, and exits
  with status 1. The scan does complete, without a comparison, whenever the binding
  declares no function of the header at all.
\<close>

theorem C1_missing_binding:
  assumes "get_c_functions header = Inr c"
    and "c_scan_after header n (0, []) = Inr (pos, fs)"
    and "pos < length header"
    and "contains '' GEOS_DLL '' (header ! pos)"
    and "c_declaration header pos = Inr (pos', name, args, ret_type)"
    and "name \<noteq> []" and "name \<notin> set TO_IGNORE"
    and "\<forall>line\<in>set binding. contains '' fn '' line \<longrightarrow> declared_name line \<noteq> name"
  shows "name \<in> fst ` set c
     \<and> (\<forall>st. get_rust_functions binding c = Some (Inr st) \<longrightarrow>
            name \<in> set (not_bound st)
          \<and> (map fst c = [name] \<longrightarrow> not_bound st = [name])
          \<and> check_missing header binding = Some (Inr (report st, 1)))
     \<and> ((\<forall>line\<in>set binding. contains '' fn '' line \<longrightarrow> declared_name line \<notin> fst ` set c) \<longrightarrow>
          (\<exists>st. get_rust_functions binding c = Some (Inr st) \<and> c_func st = c \<and> \<not> errored st))"
proof -
  have key: "name \<in> fst ` set c"
    by (rule declared_extracted [OF assms(1-7)])
  from missing_of_key [OF assms(1) key assms(8)] key show ?thesis by blast
qed

text \<open>
  The theorem at the header \<^verbatim>\<open>extern int GEOS_DLL GEOSFunc(const double * arg);\<close> and a
  binding that declares another function only.
\<close>

theorem C1_missing_binding_witness:
  "get_c_functions [''extern int GEOS_DLL GEOSFunc(const double * arg);'']
     = Inr [(''GEOSFunc'', [''const double *''], ''int'')]
   \<and> contains '' GEOS_DLL '' ''extern int GEOS_DLL GEOSFunc(const double * arg);''
   \<and> c_declaration [''extern int GEOS_DLL GEOSFunc(const double * arg);''] 0
       = Inr (0, ''GEOSFunc'', [''const double *''], ''int'')
   \<and> ''GEOSFunc'' \<notin> set TO_IGNORE
   \<and> contains '' fn '' ''    pub fn GEOSOther(arg: c_int);''
   \<and> declared_name ''    pub fn GEOSOther(arg: c_int);'' = ''GEOSOther''
   \<and> get_rust_functions [''    pub fn GEOSOther(arg: c_int);'']
        [(''GEOSFunc'', [''const double *''], ''int'')]
       = Some (Inr \<lparr>c_func = [(''GEOSFunc'', [''const double *''], ''int'')],
                    r_func = [''GEOSOther''], errors = 0, printed = []\<rparr>)
   \<and> check_missing [''extern int GEOS_DLL GEOSFunc(const double * arg);'']
        [''    pub fn GEOSOther(arg: c_int);'']
       = Some (Inr ([''==> Not bound functions:'', ''GEOSFunc'', [],
                     ''==> Extra (???) rust functions:'', ''GEOSOther''], 1))"
proof -
  let ?H = "[''extern int GEOS_DLL GEOSFunc(const double * arg);'']"
  let ?B = "[''    pub fn GEOSOther(arg: c_int);'']"
  let ?C = "[(''GEOSFunc'', [''const double *''], ''int'')]"
  let ?S = "\<lparr>c_func = ?C, r_func = [''GEOSOther''], errors = 0, printed = []\<rparr>"
  have h: "get_c_functions ?H = Inr ?C" by code_simp
  have a: "c_scan_after ?H 0 (0, []) = Inr (0, [])" by simp
  have l: "0 < length ?H" by simp
  have m: "contains '' GEOS_DLL '' (?H ! 0)" by code_simp
  have m': "contains '' GEOS_DLL '' ''extern int GEOS_DLL GEOSFunc(const double * arg);''"
    by code_simp
  have c: "c_declaration ?H 0 = Inr (0, ''GEOSFunc'', [''const double *''], ''int'')"
    by code_simp
  have ne: "''GEOSFunc'' \<noteq> []" by simp
  have i: "''GEOSFunc'' \<notin> set TO_IGNORE" by (simp add: TO_IGNORE_def)
  have f: "contains '' fn '' ''    pub fn GEOSOther(arg: c_int);''" by code_simp
  have d: "declared_name ''    pub fn GEOSOther(arg: c_int);'' = ''GEOSOther''" by code_simp
  have b: "\<forall>line\<in>set ?B. contains '' fn '' line \<longrightarrow> declared_name line \<noteq> ''GEOSFunc''"
    by (simp add: d)
  have r: "get_rust_functions ?B ?C = Some (Inr ?S)" by code_simp
  have p: "report ?S = [''==> Not bound functions:'', ''GEOSFunc'', [],
                     ''==> Extra (???) rust functions:'', ''GEOSOther'']" by code_simp
  from C1_missing_binding [OF h a l m c ne i b] r
  have "check_missing ?H ?B = Some (Inr (report ?S, 1))" by blast
  with h m' c i f d r p show ?thesis by simp
qed

text \<open>
  Claim C10: take a run at a moment when its scan of the binding is at a line that holds
  the marker \<^verbatim>\<open> fn \<close>, with the dict \<open>c_func st\<close> as the earlier lines have left it. If the name
  the line declares is not empty and not a key of the dict, this pass only adds it to the
  set of extra names, and every run that completes from there prints it as extra and
  exits with status 1. A name of the deny-list is always such a name, and so is a name
  whose entry an earlier line has deleted. If the name is a key of the dict, every pass
  that returns has deleted its entry, whatever the comparator returned, and no run that
  completes prints the name as not bound.
\<close>

theorem C10_extra_and_deletion:
  assumes "get_c_functions header = Inr c"
    and "scan_after binding n (0, scan_start c) = Some (Inr (pos, st))"
    and "pos < length binding" and "contains '' fn '' (binding ! pos)"
  shows "(declared_name (binding ! pos) \<notin> fst ` set (c_func st)
          \<and> declared_name (binding ! pos) \<noteq> [] \<longrightarrow>
            rust_step binding pos st =
              Some (Inr (Suc pos,
                st\<lparr>r_func := List.insert (declared_name (binding ! pos)) (r_func st)\<rparr>))
          \<and> (\<forall>st'. get_rust_functions binding c = Some (Inr st') \<longrightarrow>
                declared_name (binding ! pos) \<in> set (extra st') \<and> exit_status st' = 1))
     \<and> (declared_name (binding ! pos) \<in> set TO_IGNORE \<longrightarrow>
          declared_name (binding ! pos) \<notin> fst ` set (c_func st)
          \<and> declared_name (binding ! pos) \<noteq> [])
     \<and> (declared_name (binding ! pos) \<in> fst ` set (c_func st) \<longrightarrow>
          (\<forall>pos' st1. rust_step binding pos st = Some (Inr (pos', st1)) \<longrightarrow>
             c_func st1 = AList.delete (declared_name (binding ! pos)) (c_func st))
          \<and> (\<forall>st'. get_rust_functions binding c = Some (Inr st') \<longrightarrow>
                declared_name (binding ! pos) \<notin> set (not_bound st')))"
proof -
  let ?name = "declared_name (binding ! pos)"
  have same: "get_rust_functions binding c = get_rust_functions_loop binding pos st"
    unfolding get_rust_functions_def by (rule scan_after_loop [OF assms(2)])
  have extra_part: "rust_step binding pos st =
        Some (Inr (Suc pos, st\<lparr>r_func := List.insert ?name (r_func st)\<rparr>))
      \<and> (\<forall>st'. get_rust_functions binding c = Some (Inr st') \<longrightarrow>
            ?name \<in> set (extra st') \<and> exit_status st' = 1)"
    if out: "?name \<notin> fst ` set (c_func st)" and ne: "?name \<noteq> []"
  proof -
    from rust_step_unmatched [OF assms(4) out] ne
    have s: "rust_step binding pos st =
        Some (Inr (Suc pos, st\<lparr>r_func := List.insert ?name (r_func st)\<rparr>))"
      by simp
    have "?name \<in> set (extra st') \<and> exit_status st' = 1"
      if run: "get_rust_functions binding c = Some (Inr st')" for st'
    proof -
      from run same loop_step [OF assms(3) s]
      have "get_rust_functions_loop binding (Suc pos)
          (st\<lparr>r_func := List.insert ?name (r_func st)\<rparr>) = Some (Inr st')"
        by simp
      from loop_inv [OF this] have in_r: "?name \<in> set (r_func st')" by auto
      then have "r_func st' \<noteq> []" by auto
      with in_r show ?thesis by (simp add: set_extra exit_status_left)
    qed
    with s show ?thesis by blast
  qed
  have deny_part: "?name \<notin> fst ` set (c_func st) \<and> ?name \<noteq> []" if "?name \<in> set TO_IGNORE"
  proof -
    from scan_after_inv [OF assms(2)] have "fst ` set (c_func st) \<subseteq> fst ` set c"
      by (simp add: scan_start_def)
    with ignore_not_extracted [OF assms(1) that] ignore_nonempty [OF that]
    show ?thesis by blast
  qed
  have matched_part: "(\<forall>pos' st1. rust_step binding pos st = Some (Inr (pos', st1)) \<longrightarrow>
             c_func st1 = AList.delete ?name (c_func st))
          \<and> (\<forall>st'. get_rust_functions binding c = Some (Inr st') \<longrightarrow>
                ?name \<notin> set (not_bound st'))"
    if key: "?name \<in> fst ` set (c_func st)"
  proof -
    have del: "c_func st1 = AList.delete ?name (c_func st)"
      if "rust_step binding pos st = Some (Inr (pos', st1))" for pos' st1
      using rust_step_matched [OF assms(4) key that] by simp
    have "?name \<notin> set (not_bound st')"
      if run: "get_rust_functions binding c = Some (Inr st')" for st'
    proof -
      from run same have "get_rust_functions_loop binding pos st = Some (Inr st')" by simp
      from loop_returns_step [OF this assms(3)] obtain pos1 st1
        where s: "rust_step binding pos st = Some (Inr (pos1, st1))"
          and l: "get_rust_functions_loop binding pos1 st1 = Some (Inr st')"
        by blast
      from loop_inv [OF l] del [OF s]
      have "fst ` set (c_func st') \<subseteq> fst ` set (AList.delete ?name (c_func st))" by simp
      with delete_notin_dom [of ?name "c_func st"] show ?thesis
        unfolding set_not_bound by blast
    qed
    with del show ?thesis by blast
  qed
  from extra_part deny_part matched_part show ?thesis by blast
qed


text \<open>
  The theorem at a binding that declares \<^verbatim>\<open>F\<close> twice, first with a parameter type that
  differs from the header's: at the first line \<^verbatim>\<open>F\<close> is a key, at the second it is not.
\<close>

theorem C10_extra_and_deletion_witness:
  "get_c_functions [''extern int GEOS_DLL F(int x);''] = Inr [(''F'', [''int''], ''int'')]
   \<and> scan_after
        [''    pub fn F(x: *mut c_int) -> c_int;'', ''    pub fn F(x: c_int) -> c_int;'',
         ''    pub fn initGEOS_r();'']
        1 (0, scan_start [(''F'', [''int''], ''int'')])
       = Some (Inr (1, \<lparr>c_func = [], r_func = [], errors = 1,
                        printed = [params_differ ''F'' ''c_int'' ''*mut c_int'']\<rparr>))
   \<and> contains '' fn '' ''    pub fn F(x: c_int) -> c_int;''
   \<and> declared_name ''    pub fn F(x: c_int) -> c_int;'' = ''F''
   \<and> get_rust_functions
        [''    pub fn F(x: *mut c_int) -> c_int;'', ''    pub fn F(x: c_int) -> c_int;'',
         ''    pub fn initGEOS_r();'']
        [(''F'', [''int''], ''int'')]
       = Some (Inr \<lparr>c_func = [], r_func = [''initGEOS_r'', ''F''], errors = 1,
                    printed = [params_differ ''F'' ''c_int'' ''*mut c_int'']\<rparr>)
   \<and> ''F'' \<in> set (extra \<lparr>c_func = [], r_func = [''initGEOS_r'', ''F''], errors = 1,
                    printed = [params_differ ''F'' ''c_int'' ''*mut c_int'']\<rparr>)
   \<and> exit_status \<lparr>c_func = [], r_func = [''initGEOS_r'', ''F''], errors = 1,
                    printed = [params_differ ''F'' ''c_int'' ''*mut c_int'']\<rparr> = 1
   \<and> ''F'' \<notin> set (not_bound \<lparr>c_func = [], r_func = [''initGEOS_r'', ''F''], errors = 1,
                    printed = [params_differ ''F'' ''c_int'' ''*mut c_int'']\<rparr>)"
proof -
  let ?H = "[''extern int GEOS_DLL F(int x);'']"
  let ?C = "[(''F'', [''int''], ''int'')]"
  let ?B = "[''    pub fn F(x: *mut c_int) -> c_int;'', ''    pub fn F(x: c_int) -> c_int;'',
         ''    pub fn initGEOS_r();'']"
  let ?S1 = "\<lparr>c_func = [], r_func = [], errors = 1,
                        printed = [params_differ ''F'' ''c_int'' ''*mut c_int'']\<rparr>"
  let ?S = "\<lparr>c_func = [], r_func = [''initGEOS_r'', ''F''], errors = 1,
                    printed = [params_differ ''F'' ''c_int'' ''*mut c_int'']\<rparr>"
  have h: "get_c_functions ?H = Inr ?C" by code_simp
  have a0: "scan_after ?B 0 (0, scan_start ?C) = Some (Inr (0, scan_start ?C))" by simp
  have a1: "scan_after ?B 1 (0, scan_start ?C) = Some (Inr (1, ?S1))" by code_simp
  have f0: "contains '' fn '' (?B ! 0)" by code_simp
  have f1: "contains '' fn '' (?B ! 1)" by code_simp
  have d0: "declared_name ''    pub fn F(x: *mut c_int) -> c_int;'' = ''F''" by code_simp
  have d1: "declared_name ''    pub fn F(x: c_int) -> c_int;'' = ''F''" by code_simp
  have g1: "contains '' fn '' ''    pub fn F(x: c_int) -> c_int;''" by code_simp
  have r: "get_rust_functions ?B ?C = Some (Inr ?S)" by code_simp
  have "''F'' \<in> set (extra ?S) \<and> exit_status ?S = 1"
    using C10_extra_and_deletion [OF h a1 _ f1] r by (simp add: d1)
  moreover have "''F'' \<notin> set (not_bound ?S)"
    using C10_extra_and_deletion [OF h a0 _ f0] r by (simp add: d0 scan_start_def)
  ultimately show ?thesis using h a1 r d1 g1 by simp
qed

section \<open>Translating twice\<close>

text \<open>
  Claim C7, as stated: on every type string with no pointer and no \<^verbatim>\<open>unsigned\<close>, translating
  the translation gives the translation again. It does not when a token carries
  whitespace other than the space. The translator cuts its input at spaces only, but it
  strips every token it puts out; so of \<^verbatim>\<open>a\<close>, space, tab, \<^verbatim>\<open>const\<close> the second token is tab
  and \<^verbatim>\<open>const\<close>, which is kept and comes out as \<^verbatim>\<open>const\<close>; the result \<^verbatim>\<open>a const\<close> then loses that
  token when it is translated again.
\<close>

theorem C7_idempotent_counterexample:
  "CHR ''*'' \<notin> set (''a '' @ [CHR 0x09] @ ''const'')
   \<and> ''unsigned'' \<notin> set (split '' '' (strip (''a '' @ [CHR 0x09] @ ''const'')))
   \<and> convert_c_to_rust (''a '' @ [CHR 0x09] @ ''const'') = Some (Inr ''a const'')
   \<and> convert_c_to_rust ''a const'' = Some (Inr ''a'')"
  by code_simp

text \<open>
  Claim C7, amended: take a type string with no \<^verbatim>\<open>*\<close> in it, no whitespace but spaces and no
  token \<^verbatim>\<open>unsigned\<close>. If all its tokens are \<^verbatim>\<open>const\<close> the translator raises IndexError;
  otherwise it returns a string, and on that string it returns the same string.
\<close>

theorem C7_idempotent_on_plain_types:
  assumes star: "CHR ''*'' \<notin> set c_type"
    and ws: "\<forall>ch\<in>set c_type. is_space ch \<longrightarrow> ch = CHR '' ''"
    and uns: "''unsigned'' \<notin> set (split '' '' (strip c_type))"
  shows "if \<forall>t\<in>set (split '' '' (strip c_type)). t = ''const''
         then convert_c_to_rust c_type = Some (Inl IndexError)
         else (\<exists>r. convert_c_to_rust c_type = Some (Inr r)
                 \<and> convert_c_to_rust r = Some (Inr r))"
proof -
  let ?parts = "split '' '' (strip c_type)"
  let ?ct = "filter (\<lambda>p. p \<noteq> ''const'') ?parts"
  let ?toks = "filter (\<lambda>x. x \<noteq> []) (map inline_conv_get ?ct)"
  let ?r = "join '' '' ?toks"
  have pl: "\<forall>p\<in>set ?parts. plain p"
  proof
    fix p assume p: "p \<in> set ?parts"
    then have sub: "set p \<subseteq> set c_type"
      using split_char_subset [of p "CHR '' ''" "strip c_type"] set_strip [of c_type] by auto
    from p have nosp: "CHR '' '' \<notin> set p" by (rule split_char_no_sep)
    from sub star have "CHR ''*'' \<notin> set p" by auto
    moreover have "\<forall>ch\<in>set p. \<not> is_space ch"
      using sub ws nosp by auto
    ultimately show "plain p" by (simp add: plain_def)
  qed
  have first: "convert_c_to_rust c_type =
      (if ?ct = [] then Some (Inl IndexError) else Some (Inr ?r))"
    by (rule convert_tokens [OF refl pl uns])
  have all_const: "(\<forall>t\<in>set ?parts. t = ''const'') \<longleftrightarrow> ?ct = []"
    by (auto simp: filter_empty_conv)
  have second: "convert_c_to_rust ?r = Some (Inr ?r)"
  proof (cases "?toks = []")
    case True
    then show ?thesis by (simp add: convert_empty)
  next
    case False
    have tok: "plain t \<and> t \<noteq> [] \<and> t \<noteq> ''const'' \<and> t \<noteq> ''unsigned''
        \<and> inline_conv_get t = t" if "t \<in> set ?toks" for t
    proof -
      from that obtain p where p: "p \<in> set ?parts" "p \<noteq> ''const''" "t = inline_conv_get p"
        and ne: "t \<noteq> []" by auto
      from p(1) uns have "p \<noteq> ''unsigned''" by auto
      with p pl ne show ?thesis
        by (simp add: inline_conv_get_plain inline_conv_get_const inline_conv_get_unsigned
            inline_conv_get_idem)
    qed
    have nosp: "\<forall>t\<in>set ?toks. CHR '' '' \<notin> set t"
      using tok space_is_space unfolding plain_def by blast
    from False have hd_in: "hd ?toks \<in> set ?toks" by (rule hd_in_set)
    from False have last_in: "last ?toks \<in> set ?toks" by (rule last_in_set)
    from tok [OF hd_in] have hd_ne: "hd ?toks \<noteq> []" and hd_pl: "plain (hd ?toks)" by simp_all
    from tok [OF last_in] have last_ne: "last ?toks \<noteq> []" and last_pl: "plain (last ?toks)"
      by simp_all
    have r_ne: "?r \<noteq> []" and r_last: "last ?r = last (last ?toks)"
      using last_join [OF False last_ne, of "'' ''"] by simp_all
    have r_hd: "hd ?r = hd (hd ?toks)"
      using hd_join [OF hd_ne, of "'' ''" "tl ?toks"] False by simp
    have "\<not> is_space (hd ?r)"
      using hd_pl hd_ne unfolding r_hd plain_def by simp
    moreover have "\<not> is_space (last ?r)"
      using last_pl last_ne unfolding r_last plain_def by simp
    ultimately have strip_r: "strip ?r = ?r"
      using r_ne by (intro strip_ends)
    have split_r: "split '' '' (strip ?r) = ?toks"
      unfolding strip_r by (rule split_join [OF False nosp])
    have pl': "\<forall>t\<in>set ?toks. plain t" using tok by blast
    have uns': "''unsigned'' \<notin> set ?toks" using tok by blast
    have keep: "filter (\<lambda>p. p \<noteq> ''const'') ?toks = ?toks"
      using tok by (intro filter_True) blast
    have same: "map inline_conv_get ?toks = ?toks"
      using tok by (intro map_idI) blast
    have nonempty: "filter (\<lambda>x. x \<noteq> []) ?toks = ?toks"
      using tok by (intro filter_True) blast
    from convert_tokens [OF split_r pl' uns'] False show ?thesis
      by (simp only: keep same nonempty) simp
  qed
  show ?thesis
  proof (cases "?ct = []")
    case True
    with first all_const show ?thesis by simp
  next
    case False
    with first second all_const show ?thesis by simp
  qed
qed

text \<open>The theorem at \<^verbatim>\<open>const double\<close>.\<close>

theorem C7_idempotent_on_plain_types_witness:
  "CHR ''*'' \<notin> set ''const double''
   \<and> ''unsigned'' \<notin> set (split '' '' (strip ''const double''))
   \<and> split '' '' (strip ''const double'') = [''const'', ''double'']
   \<and> convert_c_to_rust ''const double'' = Some (Inr ''c_double'')
   \<and> convert_c_to_rust ''c_double'' = Some (Inr ''c_double'')"
proof -
  have star: "CHR ''*'' \<notin> set ''const double''" by simp
  have ws: "\<forall>ch\<in>set ''const double''. is_space ch \<longrightarrow> ch = CHR '' ''"
    by (simp add: is_space_def)
  have parts: "split '' '' (strip ''const double'') = [''const'', ''double'']" by code_simp
  then have uns: "''unsigned'' \<notin> set (split '' '' (strip ''const double''))" by simp
  have first: "convert_c_to_rust ''const double'' = Some (Inr ''c_double'')" by code_simp
  from C7_idempotent_on_plain_types [OF star ws uns] parts first
  have "convert_c_to_rust ''c_double'' = Some (Inr ''c_double'')" by simp
  with star uns parts first show ?thesis by simp
qed

end
